theory Spec2Isabelle
  imports Main
begin

section \<open>The registry database backend (registry/reg\_backend\_db.c)\<close>

subsection \<open>The shared handle and its reference count\<close>

text \<open>
  The backend keeps two file-level variables: \<^verbatim>\<open>static struct tdb_wrap *tdb_reg\<close>
  and \<^verbatim>\<open>static int tdb_refcount\<close>. The handle is either \<^verbatim>\<open>NULL\<close> or points to an
  open store, so it is an option; what it points to plays no role in \<^verbatim>\<open>regdb_close\<close>
  and stays a type parameter. The count is a C \<^verbatim>\<open>int\<close>; \<^verbatim>\<open>regdb_close\<close> only
  decrements it, which cannot overflow except at \<^verbatim>\<open>INT_MIN\<close>, so it is an \<open>int\<close> here.
\<close>

record 'h regdb_globals =
  tdb_reg :: "'h option"
  tdb_refcount :: int

text \<open>
  \<^verbatim>\<open>SMB_ASSERT(b)\<close> is a macro declared outside this file; it calls \<^verbatim>\<open>smb_panic\<close>
  when \<open>b\<close> is false. A panic is the error value \<open>Assert_Panic\<close>; a normal return is
  the returned \<^verbatim>\<open>int\<close> together with the globals as the call leaves them.
\<close>

datatype close_error = Assert_Panic

definition regdb_close :: "'h regdb_globals \<Rightarrow> close_error + (int \<times> 'h regdb_globals)" where
  "regdb_close g =
     (if tdb_refcount g = 0 then Inr (0, g)
      else
        let g1 = g\<lparr>tdb_refcount := tdb_refcount g - 1\<rparr> in
        if tdb_refcount g1 > 0 then Inr (0, g1)
        else if \<not> (tdb_refcount g1 \<ge> 0) then Inl Assert_Panic
        else Inr (0, g1\<lparr>tdb_reg := None\<rparr>))"

subsection \<open>Bytes and packed fields\<close>

text \<open>
  A stored record is a sequence of bytes. A byte is a \<open>char\<close> (eight bits), so that a C
  string is the \<open>string\<close> of its bytes before the terminating NUL, and a record is a
  \<open>string\<close> as well.
\<close>

type_synonym uint8 = char

text \<open>
  Modelled from the spec: the byte-order macros \<^verbatim>\<open>SIVAL\<close> and \<^verbatim>\<open>IVAL\<close> (include/byteorder.h,
  not part of the sources at hand) that write and read the 4-byte fields of section 4.2 of
  the specification; least significant byte first.
\<close>

definition SIVAL :: "nat \<Rightarrow> string" where
  "SIVAL d = [char_of (d mod 256), char_of (d div 256 mod 256),
              char_of (d div 256 div 256 mod 256), char_of (d div 256 div 256 div 256 mod 256)]"

fun IVAL :: "string \<Rightarrow> nat" where
  "IVAL (b0 # b1 # b2 # b3 # rest) =
     of_char b0 + 256 * (of_char b1 + 256 * (of_char b2 + 256 * of_char b3))"
| "IVAL _ = 0"

text \<open>
  Modelled from the spec: \<^verbatim>\<open>fstring\<close>, the fixed-capacity name buffer (include/smb.h,
  absent); section 4.2 speaks of fixed-capacity null-terminated name fields. The capacity
  is 256 bytes, terminator included.
\<close>

definition sizeof_fstring :: nat where
  "sizeof_fstring = 256"

text \<open>
  Memory obtained from \<^verbatim>\<open>malloc\<close> or \<^verbatim>\<open>realloc\<close> holds indeterminate bytes until it
  is written: a buffer is a list of optional bytes, \<open>None\<close> for a byte never written.
\<close>

type_synonym buffer = "uint8 option list"

definition memcpy_at :: "buffer \<Rightarrow> nat \<Rightarrow> string \<Rightarrow> buffer" where
  "memcpy_at buf off bs = take off buf @ map Some bs @ drop (off + length bs) buf"

definition realloc :: "buffer \<Rightarrow> nat \<Rightarrow> buffer" where
  "realloc buf n = take n buf @ replicate (n - length buf) None"

text \<open>The bytes of a buffer region, provided every one of them has been written.\<close>

fun defined_bytes :: "buffer \<Rightarrow> string option" where
  "defined_bytes [] = Some []"
| "defined_bytes (None # bs) = None"
| "defined_bytes (Some b # bs) = (case defined_bytes bs of None \<Rightarrow> None | Some r \<Rightarrow> Some (b # r))"

text \<open>
  Modelled from the spec: \<^verbatim>\<open>tdb_pack\<close> (lib/util\_tdb.c, absent from the sources at hand),
  for the three field formats this file uses: \<^verbatim>\<open>d\<close> a 4-byte integer, \<^verbatim>\<open>f\<close> a
  null-terminated string, \<^verbatim>\<open>B\<close> a 4-byte length followed by that many bytes (section
  4.2). A field that does not fit into the remaining \<open>bufsize\<close> bytes is not written, and
  the length needed is returned either way: the callers below rely on that, sizing a
  record with a first pass over an empty buffer (\<^verbatim>\<open>regdb_store_values\<close>) and testing
  \<^verbatim>\<open>len > buflen\<close> after the call (\<^verbatim>\<open>regdb_store_keys_internal\<close>).
\<close>

datatype pack_arg = Pack_d nat | Pack_f string | Pack_B string

fun pack_bytes :: "pack_arg \<Rightarrow> string" where
  "pack_bytes (Pack_d d) = SIVAL d"
| "pack_bytes (Pack_f s) = s @ [CHR 0x00]"
| "pack_bytes (Pack_B dat) = SIVAL (length dat) @ dat"

fun pack_fits :: "pack_arg \<Rightarrow> int \<Rightarrow> nat \<Rightarrow> bool" where
  "pack_fits (Pack_d d) bufsize len = (bufsize \<noteq> 0 \<and> bufsize \<ge> int len)"
| "pack_fits (Pack_f s) bufsize len = (bufsize \<ge> int len)"
| "pack_fits (Pack_B dat) bufsize len = (bufsize \<ge> int len)"

fun tdb_pack :: "buffer \<Rightarrow> nat \<Rightarrow> int \<Rightarrow> pack_arg list \<Rightarrow> buffer \<times> int" where
  "tdb_pack buf off bufsize [] = (buf, 0)"
| "tdb_pack buf off bufsize (a # as) =
     (let bytes = pack_bytes a;
          len = length bytes;
          buf1 = (if pack_fits a bufsize len then memcpy_at buf off bytes else buf);
          bufsize1 = (if bufsize \<noteq> 0 then bufsize - int len else bufsize);
          bufsize2 = (if bufsize1 < 0 then 0 else bufsize1);
          (buf2, n) = tdb_pack buf1 (off + len) bufsize2 as
      in (buf2, int len + n))"

text \<open>
  Modelled from the spec: \<^verbatim>\<open>tdb_unpack\<close> (lib/util\_tdb.c, absent), field by field. Each
  function takes the bytes from the read position to the end of the buffer (so their
  number is \<open>bufsize\<close>) and returns the decoded field with the number of bytes it took,
  or \<open>None\<close> where \<^verbatim>\<open>tdb_unpack\<close> returns -1 because the field runs past the end (or,
  for \<^verbatim>\<open>f\<close>, past the capacity of an \<^verbatim>\<open>fstring\<close>). A failed field leaves its output
  variable as it was.
\<close>

definition tdb_unpack_d :: "string \<Rightarrow> (nat \<times> nat) option" where
  "tdb_unpack_d bs = (if length bs < 4 then None else Some (IVAL bs, 4))"

definition tdb_unpack_f :: "string \<Rightarrow> (string \<times> nat) option" where
  "tdb_unpack_f bs =
     (let s = takeWhile (\<lambda>c. c \<noteq> CHR 0x00) bs;
          len = length s + 1
      in if length bs < len \<or> len > sizeof_fstring then None else Some (s, len))"

text \<open>
  The \<^verbatim>\<open>B\<close> field has two outputs, the length and the pointer to a fresh copy of the
  payload; the length is written before the payload is checked. The result is the
  new length (if it was written), the new pointer (\<open>None\<close> is \<^verbatim>\<open>NULL\<close>) and the
  bytes taken, \<open>None\<close> for the latter on failure.
\<close>

definition tdb_unpack_B :: "string \<Rightarrow> nat option \<times> string option \<times> nat option" where
  "tdb_unpack_B bs =
     (if length bs < 4 then (None, None, None)
      else let i = IVAL bs in
        if i = 0 then (Some i, None, Some 4)
        else if length bs < 4 + i then (Some i, None, None)
        else (Some i, Some (take i (drop 4 bs)), Some (4 + i)))"

text \<open>Conversion of a \<^verbatim>\<open>uint32\<close> to \<^verbatim>\<open>int\<close>, as in \<^verbatim>\<open>ret = num_items\<close>.\<close>

definition int_of_uint32 :: "nat \<Rightarrow> int" where
  "int_of_uint32 n = (if n mod 2 ^ 32 < 2 ^ 31 then int (n mod 2 ^ 32) else int (n mod 2 ^ 32) - 2 ^ 32)"

subsection \<open>Path normalisation\<close>

text \<open>
  Modelled from the spec: \<^verbatim>\<open>strupper_m\<close> and \<^verbatim>\<open>strequal\<close> (lib/util\_str.c, absent) on
  single-byte characters: the letters a to z are folded to upper case, every other byte
  is left alone; two names are equal when their folded forms are (section 3:
  case-insensitive paths, canonical form upper-cased).
\<close>

definition toupper_ascii :: "char \<Rightarrow> char" where
  "toupper_ascii c =
     (let n = (of_char c :: nat) in if 97 \<le> n \<and> n \<le> 122 then char_of (n - 32) else c)"

definition strupper_m :: "string \<Rightarrow> string" where
  "strupper_m s = map toupper_ascii s"

definition strequal :: "string \<Rightarrow> string \<Rightarrow> bool" where
  "strequal a b = (strupper_m a = strupper_m b)"

text \<open>\<^verbatim>\<open>talloc_string_sub(ctx, path, "\\", "/")\<close>: every backslash becomes a slash.\<close>

definition string_sub_backslash :: "string \<Rightarrow> string" where
  "string_sub_backslash s = map (\<lambda>c. if c = CHR 0x5C then CHR ''/'' else c) s"

text \<open>
  Modelled from the spec: \<^verbatim>\<open>normalize_reg_path\<close> and \<^verbatim>\<open>normalize_dbkey\<close>
  (registry/reg\_util.c, absent): canonical form, upper-cased with the delimiter
  translated to the store's separator (section 3); the same two steps
  \<^verbatim>\<open>regdb_fetch_keys\<close> performs inline.
\<close>

definition normalize_reg_path :: "string \<Rightarrow> string" where
  "normalize_reg_path keyname = strupper_m (string_sub_backslash keyname)"

definition normalize_dbkey :: "string \<Rightarrow> string" where
  "normalize_dbkey key = strupper_m (string_sub_backslash key)"

text \<open>
  Modelled from the spec: the prefixes \<^verbatim>\<open>REG_VALUE_PREFIX\<close> and \<^verbatim>\<open>REG_SECDESC_PREFIX\<close>
  (include/reg\_objects.h, absent), as in the key-space table of section 6.
\<close>

definition REG_VALUE_PREFIX :: string where
  "REG_VALUE_PREFIX = ''REG_VALUES''"

definition REG_SECDESC_PREFIX :: string where
  "REG_SECDESC_PREFIX = ''REG_SECDESC''"

subsection \<open>The backing store\<close>

text \<open>
  Modelled from the spec: the transactional key-value store (lib/tdb, absent), after the
  contract of section 6. Records map a key to its bytes. \<open>tdb_lock_timeout\<close> tells for
  which keys a read lock cannot be had within the timeout (another process holds them).
  An open transaction remembers the records at its outermost start, its nesting depth
  and whether a nested cancel has spoiled it. The store is modelled without input/output
  failures: \<^verbatim>\<open>put\<close> and \<^verbatim>\<open>delete\<close> return 0, deleting an absent key included ("deleting
  an absent key is not an error"), and the sequence number goes up by one for every
  committed outermost transaction and every mutation outside a transaction.
\<close>

record tdb_context =
  tdb_records :: "string \<Rightarrow> string option"
  tdb_seqnum :: int
  tdb_transaction :: "((string \<Rightarrow> string option) \<times> nat \<times> bool) option"
  tdb_lock_timeout :: "string \<Rightarrow> bool"

definition tdb_read_lock_bystring_with_timeout :: "tdb_context \<Rightarrow> string \<Rightarrow> int" where
  "tdb_read_lock_bystring_with_timeout tdb keyval = (if tdb_lock_timeout tdb keyval then -1 else 0)"

definition tdb_fetch_bystring :: "tdb_context \<Rightarrow> string \<Rightarrow> string option" where
  "tdb_fetch_bystring tdb keystr = tdb_records tdb keystr"

definition tdb_get_seqnum :: "tdb_context \<Rightarrow> int" where
  "tdb_get_seqnum tdb = tdb_seqnum tdb"

definition tdb_bump :: "tdb_context \<Rightarrow> int" where
  "tdb_bump tdb = (if tdb_transaction tdb = None then tdb_seqnum tdb + 1 else tdb_seqnum tdb)"

definition tdb_store_bystring :: "tdb_context \<Rightarrow> string \<Rightarrow> string \<Rightarrow> int \<times> tdb_context" where
  "tdb_store_bystring tdb keystr dat =
     (0, tdb\<lparr>tdb_records := (tdb_records tdb)(keystr := Some dat), tdb_seqnum := tdb_bump tdb\<rparr>)"

definition tdb_delete_bystring :: "tdb_context \<Rightarrow> string \<Rightarrow> int \<times> tdb_context" where
  "tdb_delete_bystring tdb keystr =
     (0, tdb\<lparr>tdb_records := (tdb_records tdb)(keystr := None), tdb_seqnum := tdb_bump tdb\<rparr>)"

definition tdb_transaction_start :: "tdb_context \<Rightarrow> int \<times> tdb_context" where
  "tdb_transaction_start tdb =
     (case tdb_transaction tdb of
        None \<Rightarrow> (0, tdb\<lparr>tdb_transaction := Some (tdb_records tdb, 0, False)\<rparr>)
      | Some (saved, nesting, err) \<Rightarrow> (0, tdb\<lparr>tdb_transaction := Some (saved, Suc nesting, err)\<rparr>))"

definition tdb_transaction_cancel :: "tdb_context \<Rightarrow> int \<times> tdb_context" where
  "tdb_transaction_cancel tdb =
     (case tdb_transaction tdb of
        None \<Rightarrow> (-1, tdb)
      | Some (saved, nesting, err) \<Rightarrow>
          if nesting \<noteq> 0 then (0, tdb\<lparr>tdb_transaction := Some (saved, nesting - 1, True)\<rparr>)
          else (0, tdb\<lparr>tdb_records := saved, tdb_transaction := None\<rparr>))"

definition tdb_transaction_commit :: "tdb_context \<Rightarrow> int \<times> tdb_context" where
  "tdb_transaction_commit tdb =
     (case tdb_transaction tdb of
        None \<Rightarrow> (-1, tdb)
      | Some (saved, nesting, err) \<Rightarrow>
          if err then (-1, snd (tdb_transaction_cancel tdb))
          else if nesting \<noteq> 0 then (0, tdb\<lparr>tdb_transaction := Some (saved, nesting - 1, err)\<rparr>)
          else (0, tdb\<lparr>tdb_transaction := None, tdb_seqnum := tdb_seqnum tdb + 1\<rparr>))"

text \<open>
  Modelled from the spec: \<^verbatim>\<open>tdb_trans_store_bystring\<close> and \<^verbatim>\<open>tdb_trans_delete\<close>
  (lib/util\_tdb.c, absent): the single mutation wrapped in a transaction of its own,
  cancelled when the mutation fails.
\<close>

definition tdb_trans_store_bystring :: "tdb_context \<Rightarrow> string \<Rightarrow> string \<Rightarrow> int \<times> tdb_context" where
  "tdb_trans_store_bystring tdb keystr dat =
     (case tdb_transaction_start tdb of (res, tdb1) \<Rightarrow>
        if res \<noteq> 0 then (res, tdb1)
        else case tdb_store_bystring tdb1 keystr dat of (res, tdb2) \<Rightarrow>
          if res \<noteq> 0 then (res, snd (tdb_transaction_cancel tdb2))
          else tdb_transaction_commit tdb2)"

definition tdb_trans_delete :: "tdb_context \<Rightarrow> string \<Rightarrow> int \<times> tdb_context" where
  "tdb_trans_delete tdb keystr =
     (case tdb_transaction_start tdb of (res, tdb1) \<Rightarrow>
        if res \<noteq> 0 then (res, tdb1)
        else case tdb_delete_bystring tdb1 keystr of (res, tdb2) \<Rightarrow>
          if res \<noteq> 0 then (res, snd (tdb_transaction_cancel tdb2))
          else tdb_transaction_commit tdb2)"

text \<open>\<^verbatim>\<open>regdb_get_seqnum\<close>: the sequence number of the registry store.\<close>

definition regdb_get_seqnum :: "tdb_context \<Rightarrow> int" where
  "regdb_get_seqnum tdb = tdb_get_seqnum tdb"

subsection \<open>Subkey containers\<close>

text \<open>
  \<^verbatim>\<open>REGSUBKEY_CTR\<close>: the ordered child names of one key and the sequence number seen at
  fetch time; \<^verbatim>\<open>num_subkeys\<close> is the length of the list. \<^verbatim>\<open>TALLOC_ZERO_P\<close> gives the
  empty container with sequence number 0.
\<close>

record regsubkey_ctr =
  subkeys :: "string list"
  subkeys_seqnum :: int

definition regsubkey_ctr_zero :: regsubkey_ctr where
  "regsubkey_ctr_zero = \<lparr>subkeys = [], subkeys_seqnum = 0\<rparr>"

definition regsubkey_ctr_numkeys :: "regsubkey_ctr \<Rightarrow> nat" where
  "regsubkey_ctr_numkeys ctr = length (subkeys ctr)"

text \<open>
  Modelled from the spec: \<^verbatim>\<open>regsubkey_ctr_key_exists\<close> and \<^verbatim>\<open>regsubkey_ctr_addkey\<close>
  (registry/reg\_objects.c, absent): names compare without regard to case, and a name
  already present is not added again (the de-duplicated ordered list of section 8).
\<close>

fun regsubkey_ctr_key_exists_in :: "string list \<Rightarrow> string \<Rightarrow> bool" where
  "regsubkey_ctr_key_exists_in [] keyname = False"
| "regsubkey_ctr_key_exists_in (k # ks) keyname =
     (if strequal k keyname then True else regsubkey_ctr_key_exists_in ks keyname)"

definition regsubkey_ctr_key_exists :: "regsubkey_ctr \<Rightarrow> string \<Rightarrow> bool" where
  "regsubkey_ctr_key_exists ctr keyname = regsubkey_ctr_key_exists_in (subkeys ctr) keyname"

definition regsubkey_ctr_addkey :: "regsubkey_ctr \<Rightarrow> string \<Rightarrow> regsubkey_ctr" where
  "regsubkey_ctr_addkey ctr keyname =
     (if regsubkey_ctr_key_exists ctr keyname then ctr
      else ctr\<lparr>subkeys := subkeys ctr @ [keyname]\<rparr>)"

subsection \<open>Fetching a subkey list: \<^verbatim>\<open>regdb_fetch_keys\<close>\<close>

text \<open>
  The loop \<^verbatim>\<open>for (i=0; i<num_items; i++)\<close>, by recursion on the iterations left.
  \<open>len\<close> is the \<^verbatim>\<open>uint32\<close> read position; the return value of \<^verbatim>\<open>tdb_unpack\<close> is added
  to it unchecked, so a failed field moves it back by one (modulo \<open>2 ^ 32\<close>).
  \<open>subkeyname\<close> is the local \<^verbatim>\<open>fstring\<close>: \<open>None\<close> while nothing has been unpacked into
  it. Where the C code would read that uninitialised buffer, or form a read position
  outside the record, its behaviour is undefined and the model returns \<open>None\<close>.
\<close>

fun fetch_keys_loop ::
  "string \<Rightarrow> nat \<Rightarrow> nat \<Rightarrow> string option \<Rightarrow> regsubkey_ctr \<Rightarrow> regsubkey_ctr option" where
  "fetch_keys_loop buf 0 len subkeyname ctr = Some ctr"
| "fetch_keys_loop buf (Suc n) len subkeyname ctr =
     (if len > length buf then None
      else case tdb_unpack_f (drop len buf) of
        Some (s, l) \<Rightarrow>
          fetch_keys_loop buf n ((len + l) mod 2 ^ 32) (Some s) (regsubkey_ctr_addkey ctr s)
      | None \<Rightarrow>
          (case subkeyname of
             None \<Rightarrow> None
           | Some s \<Rightarrow>
               fetch_keys_loop buf n ((len + 2 ^ 32 - 1) mod 2 ^ 32) (Some s)
                 (regsubkey_ctr_addkey ctr s)))"

text \<open>
  The result is the returned \<^verbatim>\<open>int\<close> and the caller's container as the call leaves it.
  A lock timeout returns 0 at once; an absent record returns -1 after the container has
  been stamped with the sequence number. A record shorter than its count field leaves
  \<^verbatim>\<open>num_items\<close> uninitialised (\<open>None\<close>).
\<close>

definition regdb_fetch_keys ::
  "tdb_context \<Rightarrow> string \<Rightarrow> regsubkey_ctr \<Rightarrow> (int \<times> regsubkey_ctr) option" where
  "regdb_fetch_keys tdb key ctr =
     (let path = strupper_m (string_sub_backslash key) in
      if tdb_read_lock_bystring_with_timeout tdb path = -1 then Some (0, ctr)
      else
        let dbuf = tdb_fetch_bystring tdb path;
            ctr1 = ctr\<lparr>subkeys_seqnum := regdb_get_seqnum tdb\<rparr>
        in case dbuf of
             None \<Rightarrow> Some (-1, ctr1)
           | Some buf \<Rightarrow>
               (case tdb_unpack_d buf of
                  None \<Rightarrow> None
                | Some (num_items, len) \<Rightarrow>
                    (case fetch_keys_loop buf num_items len None ctr1 of
                       None \<Rightarrow> None
                     | Some ctr2 \<Rightarrow> Some (int_of_uint32 num_items, ctr2))))"

subsection \<open>Storing a subkey list: \<^verbatim>\<open>regdb_store_keys_internal\<close> and \<^verbatim>\<open>regdb_store_keys\<close>\<close>

text \<open>
  The packing loop of \<^verbatim>\<open>regdb_store_keys_internal\<close>, over the names still to pack. The
  state is the buffer, its size \<open>buflen\<close> and the write position \<open>len\<close> (both
  \<^verbatim>\<open>uint32\<close>). When a name does not fit, the buffer is grown to twice the length needed
  and the name is packed again at the position \<open>len\<close> already advanced, and \<open>len\<close>
  is then \<^emph>\<open>assigned\<close> the length of that one field, as in the source.
\<close>

fun store_keys_pack_loop :: "buffer \<Rightarrow> nat \<Rightarrow> nat \<Rightarrow> string list \<Rightarrow> buffer \<times> nat" where
  "store_keys_pack_loop buffer buflen len [] = (buffer, len)"
| "store_keys_pack_loop buffer buflen len (k # ks) =
     (case tdb_pack buffer len (int buflen - int len) [Pack_f k] of (buffer1, n) \<Rightarrow>
        let len1 = (len + nat n) mod 2 ^ 32 in
        if len1 > buflen then
          let buffer2 = realloc buffer1 (len1 * 2 mod 2 ^ 32);
              buflen2 = len1 * 2 mod 2 ^ 32
          in case tdb_pack buffer2 len1 (int buflen2 - int len1) [Pack_f k] of (buffer3, n2) \<Rightarrow>
               store_keys_pack_loop buffer3 buflen2 (nat n2) ks
        else store_keys_pack_loop buffer1 buflen len1 ks)"

text \<open>
  \<^verbatim>\<open>key\<close> is a string, so the \<^verbatim>\<open>NULL\<close> test has no branch here, and allocation is taken
  to succeed. The record written is the first \<open>len\<close> bytes of the buffer; should one of
  them never have been written the record's content is indeterminate (\<open>None\<close>).
\<close>

definition regdb_store_keys_internal ::
  "tdb_context \<Rightarrow> string \<Rightarrow> regsubkey_ctr \<Rightarrow> (bool \<times> tdb_context) option" where
  "regdb_store_keys_internal tdb key ctr =
     (let num_subkeys = regsubkey_ctr_numkeys ctr;
          keyname = normalize_reg_path key;
          buffer = replicate 1024 None;
          buflen = 1024
      in case tdb_pack buffer 0 (int buflen - 0) [Pack_d num_subkeys] of (buffer1, n) \<Rightarrow>
         (case store_keys_pack_loop buffer1 buflen (nat n) (subkeys ctr) of (buffer2, len) \<Rightarrow>
            (case defined_bytes (take len buffer2) of
               None \<Rightarrow> None
             | Some dbuf \<Rightarrow>
                 (case tdb_store_bystring tdb keyname dbuf of (r, tdb1) \<Rightarrow>
                    if r = -1 then Some (False, tdb1) else Some (True, tdb1)))))"

text \<open>The comparison loop of the fast path: the index at which it stops.\<close>

fun store_keys_cmp_loop :: "string list \<Rightarrow> string list \<Rightarrow> nat" where
  "store_keys_cmp_loop (a # as) (b # bs) = (if a \<noteq> b then 0 else Suc (store_keys_cmp_loop as bs))"
| "store_keys_cmp_loop _ _ = 0"

text \<open>"now delete removed keys": the loop over the old names.\<close>

fun store_keys_delete_loop ::
  "tdb_context \<Rightarrow> string \<Rightarrow> regsubkey_ctr \<Rightarrow> string list \<Rightarrow> bool \<times> tdb_context" where
  "store_keys_delete_loop tdb key ctr [] = (True, tdb)"
| "store_keys_delete_loop tdb key ctr (oldkeyname # rest) =
     (if regsubkey_ctr_key_exists ctr oldkeyname then store_keys_delete_loop tdb key ctr rest
      else
        let path = normalize_reg_path (key @ ''/'' @ oldkeyname) in
        case tdb_delete_bystring tdb path of (r, tdb1) \<Rightarrow>
          if r = -1 then (False, tdb1)
          else
            let path2 = normalize_reg_path (REG_VALUE_PREFIX @ ''/'' @ key @ ''/'' @ oldkeyname) in
            case tdb_delete_bystring tdb1 path2 of (r2, tdb2) \<Rightarrow>
              store_keys_delete_loop tdb2 key ctr rest)"

text \<open>"now create records for any subkeys that don't already exist".\<close>

fun store_keys_create_loop ::
  "tdb_context \<Rightarrow> string \<Rightarrow> string list \<Rightarrow> (bool \<times> tdb_context) option" where
  "store_keys_create_loop tdb key [] = Some (True, tdb)"
| "store_keys_create_loop tdb key (k # ks) =
     (let path = key @ ''/'' @ k in
      case regdb_fetch_keys tdb path regsubkey_ctr_zero of
        None \<Rightarrow> None
      | Some (r, subkeys1) \<Rightarrow>
          if r = -1 then
            (case regdb_store_keys_internal tdb path subkeys1 of
               None \<Rightarrow> None
             | Some (ok, tdb1) \<Rightarrow>
                 if \<not> ok then Some (False, tdb1) else store_keys_create_loop tdb1 key ks)
          else store_keys_create_loop tdb key ks)"

text \<open>The \<^verbatim>\<open>fail:\<close> label: cancel the transaction and return false.\<close>

definition store_keys_fail :: "tdb_context \<Rightarrow> (bool \<times> tdb_context) option" where
  "store_keys_fail tdb = Some (False, snd (tdb_transaction_cancel tdb))"

definition regdb_store_keys ::
  "tdb_context \<Rightarrow> string \<Rightarrow> regsubkey_ctr \<Rightarrow> (bool \<times> tdb_context) option" where
  "regdb_store_keys tdb key ctr =
     (case regdb_fetch_keys tdb key regsubkey_ctr_zero of
        None \<Rightarrow> None
      | Some (r0, old_subkeys0) \<Rightarrow>
        if (regsubkey_ctr_numkeys ctr \<noteq> 0 \<and> regsubkey_ctr_numkeys old_subkeys0 \<noteq> 0) \<and>
           regsubkey_ctr_numkeys ctr = regsubkey_ctr_numkeys old_subkeys0 \<and>
           store_keys_cmp_loop (subkeys ctr) (subkeys old_subkeys0) = regsubkey_ctr_numkeys ctr
        then Some (True, tdb)
        else
          case tdb_transaction_start tdb of (rs, tdb1) \<Rightarrow>
          if rs = -1 then Some (False, tdb1)
          else
            case regdb_fetch_keys tdb1 key regsubkey_ctr_zero of
              None \<Rightarrow> None
            | Some (r1, old_subkeys) \<Rightarrow>
              (case regdb_store_keys_internal tdb1 key ctr of
                 None \<Rightarrow> None
               | Some (ok2, tdb2) \<Rightarrow>
                 if \<not> ok2 then store_keys_fail tdb2
                 else
                   case store_keys_delete_loop tdb2 key ctr (subkeys old_subkeys) of (ok3, tdb3) \<Rightarrow>
                   if \<not> ok3 then store_keys_fail tdb3
                   else
                     case (if regsubkey_ctr_numkeys ctr = 0
                           then regdb_store_keys_internal tdb3 key regsubkey_ctr_zero
                           else Some (True, tdb3)) of
                       None \<Rightarrow> None
                     | Some (ok4, tdb4) \<Rightarrow>
                       if \<not> ok4 then store_keys_fail tdb4
                       else
                         (case store_keys_create_loop tdb4 key (subkeys ctr) of
                            None \<Rightarrow> None
                          | Some (ok5, tdb5) \<Rightarrow>
                            if \<not> ok5 then store_keys_fail tdb5
                            else
                              case tdb_transaction_commit tdb5 of (rc, tdb6) \<Rightarrow>
                                if rc = -1 then Some (False, tdb6) else Some (True, tdb6))))"

subsection \<open>Value containers\<close>

text \<open>
  \<^verbatim>\<open>REGISTRY_VALUE\<close> and \<^verbatim>\<open>REGVAL_CTR\<close> (declared in include/reg\_objects.h, absent): a
  value has a name, a type tag and a payload; its size is the number of payload bytes,
  and a payload pointer is \<^verbatim>\<open>NULL\<close> exactly when there are none.
\<close>

record registry_value =
  valuename :: string
  val_type :: nat
  data_p :: string

record regval_ctr =
  reg_values :: "registry_value list"
  values_seqnum :: int

definition regval_ctr_zero :: regval_ctr where
  "regval_ctr_zero = \<lparr>reg_values = [], values_seqnum = 0\<rparr>"

definition regval_name :: "registry_value \<Rightarrow> string" where
  "regval_name val = valuename val"

definition regval_type :: "registry_value \<Rightarrow> nat" where
  "regval_type val = val_type val"

definition regval_size :: "registry_value \<Rightarrow> nat" where
  "regval_size val = length (data_p val)"

definition regval_data_p :: "registry_value \<Rightarrow> string" where
  "regval_data_p val = data_p val"

definition regval_ctr_numvals :: "regval_ctr \<Rightarrow> nat" where
  "regval_ctr_numvals ctr = length (reg_values ctr)"

text \<open>
  Modelled from the spec: \<^verbatim>\<open>regval_ctr_key_exists\<close>, \<^verbatim>\<open>regval_ctr_delvalue\<close> and
  \<^verbatim>\<open>regval_ctr_addvalue\<close> (registry/reg\_objects.c, absent): names compare without
  regard to case; adding a value first removes the value of that name, if there is one,
  and then appends the new one, so that a container holds one value per name.
\<close>

fun regval_ctr_key_exists_in :: "registry_value list \<Rightarrow> string \<Rightarrow> bool" where
  "regval_ctr_key_exists_in [] name = False"
| "regval_ctr_key_exists_in (v # vs) name =
     (if strequal (valuename v) name then True else regval_ctr_key_exists_in vs name)"

definition regval_ctr_key_exists :: "regval_ctr \<Rightarrow> string \<Rightarrow> bool" where
  "regval_ctr_key_exists ctr name = regval_ctr_key_exists_in (reg_values ctr) name"

fun regval_ctr_delvalue_in :: "registry_value list \<Rightarrow> string \<Rightarrow> registry_value list" where
  "regval_ctr_delvalue_in [] name = []"
| "regval_ctr_delvalue_in (v # vs) name =
     (if strequal (valuename v) name then vs else v # regval_ctr_delvalue_in vs name)"

definition regval_ctr_addvalue ::
  "regval_ctr \<Rightarrow> string \<Rightarrow> nat \<Rightarrow> string \<Rightarrow> nat \<Rightarrow> regval_ctr" where
  "regval_ctr_addvalue ctr name type dat sz =
     ctr\<lparr>reg_values := regval_ctr_delvalue_in (reg_values ctr) name @
            [\<lparr>valuename = name, val_type = type, data_p = take sz dat\<rparr>]\<rparr>"

text \<open>
  Modelled from the spec: the type tags (include/reg\_objects.h, absent), with the values
  of the Windows registry.
\<close>

definition REG_NONE :: nat where "REG_NONE = 0"
definition REG_SZ :: nat where "REG_SZ = 1"
definition REG_DWORD :: nat where "REG_DWORD = 4"

subsection \<open>Packing and unpacking value lists\<close>

text \<open>
  One call \<^verbatim>\<open>tdb_unpack(buf+len, buflen-len, "fdB", valuename, &type, &size, &data_p)\<close>
  on the bytes from the read position on. The four outputs start from the values the
  loop resets them to before each call (empty name, \<^verbatim>\<open>REG_NONE\<close>, 0, \<^verbatim>\<open>NULL\<close>); the
  fields are read in order and the first that fails ends the call with -1, the outputs
  of the fields before it already written.
\<close>

definition tdb_unpack_fdB :: "string \<Rightarrow> int \<times> string \<times> nat \<times> nat \<times> string option" where
  "tdb_unpack_fdB bs =
     (case tdb_unpack_f bs of
        None \<Rightarrow> (-1, [], REG_NONE, 0, None)
      | Some (name, l1) \<Rightarrow>
          (case tdb_unpack_d (drop l1 bs) of
             None \<Rightarrow> (-1, name, REG_NONE, 0, None)
           | Some (type, l2) \<Rightarrow>
               (case tdb_unpack_B (drop (l1 + l2) bs) of
                  (None, dp, l3) \<Rightarrow> (-1, name, type, 0, None)
                | (Some sz, dp, None) \<Rightarrow> (-1, name, type, sz, None)
                | (Some sz, dp, Some l3) \<Rightarrow> (int (l1 + l2 + l3), name, type, sz, dp))))"

text \<open>
  The loop of \<^verbatim>\<open>regdb_unpack_values\<close>, by recursion on the iterations left; \<open>len\<close> is
  an \<^verbatim>\<open>int\<close> and goes back by one on a failed entry. A read position before the start
  of the buffer is undefined behaviour (\<open>None\<close>).
\<close>

fun unpack_values_loop :: "string \<Rightarrow> nat \<Rightarrow> int \<Rightarrow> regval_ctr \<Rightarrow> (int \<times> regval_ctr) option" where
  "unpack_values_loop buf 0 len vals = Some (len, vals)"
| "unpack_values_loop buf (Suc n) len vals =
     (if len < 0 \<or> len > int (length buf) then None
      else case tdb_unpack_fdB (drop (nat len) buf) of (r, name, type, sz, dp) \<Rightarrow>
        let vals1 = (case dp of
                       None \<Rightarrow> vals
                     | Some dat \<Rightarrow>
                         if name \<noteq> [] \<and> sz \<noteq> 0
                         then regval_ctr_addvalue vals name type dat sz else vals)
        in unpack_values_loop buf n (len + r) vals1)"

definition regdb_unpack_values :: "regval_ctr \<Rightarrow> string \<Rightarrow> (int \<times> regval_ctr) option" where
  "regdb_unpack_values vals buf =
     (case tdb_unpack_d buf of
        None \<Rightarrow> Some (0 + (-1), vals)
      | Some (num_values, l) \<Rightarrow> unpack_values_loop buf num_values (0 + int l) vals)"

fun pack_values_loop :: "buffer \<Rightarrow> int \<Rightarrow> int \<Rightarrow> registry_value list \<Rightarrow> buffer \<times> int" where
  "pack_values_loop buf buflen len [] = (buf, len)"
| "pack_values_loop buf buflen len (val # rest) =
     (case tdb_pack buf (nat len) (buflen - len)
             [Pack_f (regval_name val), Pack_d (regval_type val), Pack_B (regval_data_p val)] of
        (buf1, n) \<Rightarrow> pack_values_loop buf1 buflen (len + n) rest)"

definition regdb_pack_values :: "regval_ctr \<Rightarrow> buffer \<Rightarrow> int \<Rightarrow> buffer \<times> int" where
  "regdb_pack_values vals buf buflen =
     (let num_values = regval_ctr_numvals vals in
      case tdb_pack buf 0 (buflen - 0) [Pack_d num_values] of
        (buf1, n) \<Rightarrow> pack_values_loop buf1 buflen (0 + n) (reg_values vals))"

subsection \<open>Fetching and storing values\<close>

definition regdb_fetch_values ::
  "tdb_context \<Rightarrow> string \<Rightarrow> regval_ctr \<Rightarrow> (int \<times> regval_ctr) option" where
  "regdb_fetch_values tdb key vals =
     (let keystr = normalize_reg_path (REG_VALUE_PREFIX @ ''/'' @ key) in
      if tdb_read_lock_bystring_with_timeout tdb keystr = -1 then Some (0, vals)
      else
        let dat = tdb_fetch_bystring tdb keystr;
            vals1 = vals\<lparr>values_seqnum := regdb_get_seqnum tdb\<rparr>
        in case dat of
             None \<Rightarrow> Some (0, vals1)
           | Some buf \<Rightarrow>
               (case regdb_unpack_values vals1 buf of
                  None \<Rightarrow> None
                | Some (len, vals2) \<Rightarrow> Some (int (regval_ctr_numvals vals2), vals2)))"

text \<open>
  \<^verbatim>\<open>regdb_store_values\<close>: a first pass over an empty buffer gives the length, a second
  one fills a buffer of that length. \<open>None\<close> stands for the \<^verbatim>\<open>SMB_ASSERT\<close> panic.
\<close>

definition regdb_store_values ::
  "tdb_context \<Rightarrow> string \<Rightarrow> regval_ctr \<Rightarrow> (bool \<times> tdb_context) option" where
  "regdb_store_values tdb key vals =
     (case regdb_pack_values vals [] 0 of (buf0, len) \<Rightarrow>
        if len \<le> 0 then Some (False, tdb)
        else
          case regdb_pack_values vals (replicate (nat len) None) len of (buf1, len1) \<Rightarrow>
          if len1 \<noteq> len then None
          else
            case defined_bytes buf1 of
              None \<Rightarrow> None
            | Some dat \<Rightarrow>
                let keystr = normalize_reg_path (REG_VALUE_PREFIX @ ''/'' @ key);
                    old_data = tdb_fetch_bystring tdb keystr
                in if old_data \<noteq> None \<and> map_option length old_data = Some (length dat) \<and>
                      old_data = Some dat
                   then Some (True, tdb)
                   else case tdb_trans_store_bystring tdb keystr dat of
                          (ret, tdb1) \<Rightarrow> Some (ret \<noteq> -1, tdb1))"

subsection \<open>Security descriptors\<close>

text \<open>
  \<^verbatim>\<open>WERROR\<close> values this file returns; \<open>WERR_errno\<close> stands for whatever
  \<^verbatim>\<open>ntstatus_to_werror(map_nt_error_from_unix(errno))\<close> yields after a failed store
  operation. \<^verbatim>\<open>marshall_sec_desc\<close> and \<^verbatim>\<open>unmarshall_sec_desc\<close> are not part of the
  sources at hand and are parameters: the marshaller gives the bytes or the error its
  status maps to, the unmarshaller the descriptor or whether it ran out of memory.
\<close>

datatype werror = WERR_OK | WERR_NOMEM | WERR_BADFILE | WERR_REG_CORRUPT | WERR_errno

datatype ntstatus_error = NT_STATUS_NO_MEMORY | NT_STATUS_other

definition regdb_get_secdesc ::
  "(string \<Rightarrow> ntstatus_error + 'sd) \<Rightarrow> tdb_context \<Rightarrow> string \<Rightarrow> werror \<times> 'sd option" where
  "regdb_get_secdesc unmarshall_sec_desc tdb key =
     (let tdbkey = normalize_dbkey (REG_SECDESC_PREFIX @ ''/'' @ key);
          dat = tdb_fetch_bystring tdb tdbkey
      in case dat of
           None \<Rightarrow> (WERR_BADFILE, None)
         | Some bytes \<Rightarrow>
             (case unmarshall_sec_desc bytes of
                Inl NT_STATUS_NO_MEMORY \<Rightarrow> (WERR_NOMEM, None)
              | Inl NT_STATUS_other \<Rightarrow> (WERR_REG_CORRUPT, None)
              | Inr sd \<Rightarrow> (WERR_OK, Some sd)))"

definition regdb_set_secdesc ::
  "('sd \<Rightarrow> werror + string) \<Rightarrow> tdb_context \<Rightarrow> string \<Rightarrow> 'sd option \<Rightarrow> werror \<times> tdb_context" where
  "regdb_set_secdesc marshall_sec_desc tdb key secdesc =
     (let tdbkey = normalize_dbkey (REG_SECDESC_PREFIX @ ''/'' @ key) in
      case secdesc of
        None \<Rightarrow>
          (case tdb_trans_delete tdb tdbkey of (tdb_ret, tdb1) \<Rightarrow>
             if tdb_ret = -1 then (WERR_errno, tdb1) else (WERR_OK, tdb1))
      | Some sd \<Rightarrow>
          (case marshall_sec_desc sd of
             Inl err \<Rightarrow> (err, tdb)
           | Inr tdbdata \<Rightarrow>
               (case tdb_trans_store_bystring tdb tdbkey tdbdata of (r, tdb1) \<Rightarrow>
                  if r = -1 then (WERR_errno, tdb1) else (WERR_OK, tdb1))))"

subsection \<open>Seeding the built-in values: the second loop of \<^verbatim>\<open>init_registry_data\<close>\<close>

text \<open>
  \<^verbatim>\<open>struct builtin_regkey_value\<close>. The union \<^verbatim>\<open>data\<close> is read as a string for
  \<^verbatim>\<open>REG_SZ\<close> and as a number for \<^verbatim>\<open>REG_DWORD\<close>; both views are fields here. The paths of
  the table \<^verbatim>\<open>builtin_registry_values\<close> are macros defined elsewhere, so the table is a
  parameter of the loop.
\<close>

record builtin_regkey_value =
  bv_path :: string
  bv_valuename :: string
  bv_type :: nat
  bv_string :: string
  bv_dw_value :: nat

text \<open>
  Modelled from the spec: \<^verbatim>\<open>init_unistr2\<close> with \<^verbatim>\<open>UNI_STR_TERMINATE\<close> (rpc\_parse, absent)
  on single-byte characters: two bytes per character, low byte first, and a two-byte
  terminator, which \<^verbatim>\<open>uni_str_len\<close> counts.
\<close>

definition init_unistr2 :: "string \<Rightarrow> string \<times> nat" where
  "init_unistr2 s = (concat (map (\<lambda>c. [c, CHR 0x00]) s) @ [CHR 0x00, CHR 0x00], length s + 1)"

fun init_registry_values_loop ::
  "tdb_context \<Rightarrow> builtin_regkey_value list \<Rightarrow> tdb_context option" where
  "init_registry_values_loop tdb [] = Some tdb"
| "init_registry_values_loop tdb (b # bs) =
     (case regdb_fetch_values tdb (bv_path b) regval_ctr_zero of
        None \<Rightarrow> None
      | Some (n, vals) \<Rightarrow>
          if \<not> regval_ctr_key_exists vals (bv_valuename b) then
            let vals1 =
                  (if bv_type b = REG_DWORD then
                     regval_ctr_addvalue vals (bv_valuename b) REG_DWORD (SIVAL (bv_dw_value b)) 4
                   else if bv_type b = REG_SZ then
                     (case init_unistr2 (bv_string b) of (buffer, uni_str_len) \<Rightarrow>
                        regval_ctr_addvalue vals (bv_valuename b) REG_SZ buffer (uni_str_len * 2))
                   else vals)
            in case regdb_store_values tdb (bv_path b) vals1 of
                 None \<Rightarrow> None
               | Some (ok, tdb1) \<Rightarrow> init_registry_values_loop tdb1 bs
          else init_registry_values_loop tdb bs)"

subsection \<open>Notions used in the statements\<close>

text \<open>
  The record \<^verbatim>\<open>regdb_store_keys_internal\<close> writes for a list of names when the list fits
  its buffer: the count, then every name with its terminator.
\<close>

definition pack_subkeys :: "string list \<Rightarrow> string" where
  "pack_subkeys ks = SIVAL (length ks) @ concat (map (\<lambda>k. k @ [CHR 0x00]) ks)"

text \<open>
  A stored subkey record that \<^verbatim>\<open>regdb_fetch_keys\<close> reads without touching uninitialised
  memory and for which it does not return -1.
\<close>

definition subkeys_record_ok :: "string \<Rightarrow> bool" where
  "subkeys_record_ok buf =
     (case tdb_unpack_d buf of
        None \<Rightarrow> False
      | Some (n, len) \<Rightarrow>
          int_of_uint32 n \<noteq> -1 \<and> fetch_keys_loop buf n len None regsubkey_ctr_zero \<noteq> None)"

text \<open>No nested cancel has spoiled the open transaction, if there is one.\<close>

definition trans_ok :: "tdb_context \<Rightarrow> bool" where
  "trans_ok tdb = (case tdb_transaction tdb of None \<Rightarrow> True | Some (saved, nesting, err) \<Rightarrow> \<not> err)"


text \<open>
  A store used in the examples: the key \<^verbatim>\<open>HKLM\SOFTWARE\<close> with the children Samba and
  Microsoft, Samba having a child of its own, an (empty) value record and a security
  descriptor.
\<close>

definition example_key :: string where
  "example_key = ''HKLM'' @ [CHR 0x5C] @ ''SOFTWARE''"

definition example_tdb :: tdb_context where
  "example_tdb =
     \<lparr>tdb_records = (\<lambda>k.
        if k = ''HKLM/SOFTWARE'' then Some (pack_subkeys [''Samba'', ''Microsoft''])
        else if k = ''HKLM/SOFTWARE/SAMBA'' then Some (pack_subkeys [''smbconf''])
        else if k = ''HKLM/SOFTWARE/MICROSOFT'' then Some (pack_subkeys [])
        else if k = ''HKLM/SOFTWARE/SAMBA/SMBCONF'' then Some (pack_subkeys [])
        else if k = ''REG_VALUES/HKLM/SOFTWARE/SAMBA'' then Some [CHR 0x00, CHR 0x00, CHR 0x00, CHR 0x00]
        else if k = ''REG_SECDESC/HKLM/SOFTWARE/SAMBA'' then Some ''descriptor''
        else None),
      tdb_seqnum = 3, tdb_transaction = None, tdb_lock_timeout = (\<lambda>k. False)\<rparr>"

text \<open>
  The bytes \<^verbatim>\<open>regdb_pack_values\<close> writes for one value (the \<^verbatim>\<open>"fdB"\<close> fields: name with
  terminator, type, payload length, payload) and for a list of values (the count first).
\<close>

definition pack_value :: "registry_value \<Rightarrow> string" where
  "pack_value v = valuename v @ [CHR 0x00] @ SIVAL (val_type v) @ SIVAL (length (data_p v)) @ data_p v"

definition pack_values :: "registry_value list \<Rightarrow> string" where
  "pack_values vs = SIVAL (length vs) @ concat (map pack_value vs)"

text \<open>
  A value that the packed form represents faithfully: a name that is a C string short
  enough for an \<^verbatim>\<open>fstring\<close>, a type and a payload length that fit a \<^verbatim>\<open>uint32\<close>.
\<close>

definition value_ok :: "registry_value \<Rightarrow> bool" where
  "value_ok v = (CHR 0x00 \<notin> set (valuename v) \<and> length (valuename v) < 256 \<and>
                 val_type v < 2 ^ 32 \<and> length (data_p v) < 2 ^ 32)"

text \<open>
  The test of the loop of \<^verbatim>\<open>regdb_unpack_values\<close> on a decoded entry
  (\<^verbatim>\<open>*valuename && size && data_p\<close>), and one iteration of that loop on the entry of a
  value.
\<close>

definition unpack_keep :: "registry_value \<Rightarrow> bool" where
  "unpack_keep v = (valuename v \<noteq> [] \<and> data_p v \<noteq> [])"

definition unpack_step :: "regval_ctr \<Rightarrow> registry_value \<Rightarrow> regval_ctr" where
  "unpack_step c v =
     (if unpack_keep v
      then regval_ctr_addvalue c (valuename v) (val_type v) (data_p v) (length (data_p v)) else c)"

text \<open>A value list used in the examples: a number and a string value without payload.\<close>

definition example_values :: regval_ctr where
  "example_values =
     \<lparr>reg_values = [\<lparr>valuename = ''Start'', val_type = REG_DWORD, data_p = SIVAL 2\<rparr>,
                    \<lparr>valuename = ''Comment'', val_type = REG_SZ, data_p = []\<rparr>],
      values_seqnum = 0\<rparr>"

text \<open>
  A store whose two records for the key \<^verbatim>\<open>HKLM\<close> announce two entries and hold one.
\<close>

definition truncated_tdb :: tdb_context where
  "truncated_tdb =
     \<lparr>tdb_records = (\<lambda>k.
        if k = ''HKLM'' then Some (SIVAL 2 @ ''Samba'' @ [CHR 0x00])
        else if k = ''REG_VALUES/HKLM''
        then Some (SIVAL 2 @ pack_value \<lparr>valuename = ''Start'', val_type = REG_DWORD, data_p = SIVAL 2\<rparr>)
        else None),
      tdb_seqnum = 5, tdb_transaction = None, tdb_lock_timeout = (\<lambda>k. False)\<rparr>"

text \<open>
  The test of the seeding loop, \<^verbatim>\<open>regval_ctr_key_exists\<close> on what \<^verbatim>\<open>regdb_fetch_values\<close>
  returns for the path of a built-in entry: the store has a value of the entry's name.
\<close>

definition entry_present :: "tdb_context \<Rightarrow> builtin_regkey_value \<Rightarrow> bool" where
  "entry_present tdb b =
     (case regdb_fetch_values tdb (bv_path b) regval_ctr_zero of
        None \<Rightarrow> False
      | Some (n, vals) \<Rightarrow> regval_ctr_key_exists vals (bv_valuename b))"

text \<open>
  The two entries of \<^verbatim>\<open>builtin_registry_values\<close> for the event log, with the path
  \<^verbatim>\<open>HKLM\SYSTEM\CurrentControlSet\Services\Eventlog\<close> standing for the macro
  \<^verbatim>\<open>KEY_EVENTLOG\<close>; the values they seed (the error control with the number it holds);
  and a store without records.
\<close>

definition eventlog_path :: string where
  "eventlog_path = ''HKLM'' @ [CHR 0x5C] @ ''SYSTEM'' @ [CHR 0x5C] @ ''CurrentControlSet'' @
                   [CHR 0x5C] @ ''Services'' @ [CHR 0x5C] @ ''Eventlog''"

definition eventlog_table :: "builtin_regkey_value list" where
  "eventlog_table =
     [\<lparr>bv_path = eventlog_path, bv_valuename = ''DisplayName'', bv_type = REG_SZ,
        bv_string = ''Event Log'', bv_dw_value = 0\<rparr>,
      \<lparr>bv_path = eventlog_path, bv_valuename = ''ErrorControl'', bv_type = REG_DWORD,
        bv_string = [], bv_dw_value = 1\<rparr>]"

definition eventlog_display :: registry_value where
  "eventlog_display =
     \<lparr>valuename = ''DisplayName'', val_type = REG_SZ, data_p = fst (init_unistr2 ''Event Log'')\<rparr>"

definition eventlog_error_control :: "nat \<Rightarrow> registry_value" where
  "eventlog_error_control n =
     \<lparr>valuename = ''ErrorControl'', val_type = REG_DWORD, data_p = SIVAL n\<rparr>"

text \<open>A value named \<^verbatim>\<open>ErrorControl\<close> that has no payload.\<close>

definition eventlog_no_payload :: registry_value where
  "eventlog_no_payload = \<lparr>valuename = ''ErrorControl'', val_type = REG_NONE, data_p = []\<rparr>"

definition empty_tdb :: tdb_context where
  "empty_tdb = \<lparr>tdb_records = (\<lambda>k. None), tdb_seqnum = 0, tdb_transaction = None,
                 tdb_lock_timeout = (\<lambda>k. False)\<rparr>"




section \<open>Properties\<close>

subsection \<open>Packed fields\<close>


lemma length_SIVAL [simp]: "length (SIVAL d) = 4"
  by (simp add: SIVAL_def)

lemma IVAL_SIVAL: "d < 2 ^ 32 \<Longrightarrow> IVAL (SIVAL d @ rest) = d"
proof -
  assume d: "d < 2 ^ 32"
  define q1 where "q1 = d div 256"
  define q2 where "q2 = q1 div 256"
  define q3 where "q3 = q2 div 256"
  define r0 where "r0 = d mod 256"
  define r1 where "r1 = q1 mod 256"
  define r2 where "r2 = q2 mod 256"
  have 1: "d = q1 * 256 + r0" by (simp add: q1_def r0_def)
  have 2: "q1 = q2 * 256 + r1" by (simp add: q2_def r1_def)
  have 3: "q2 = q3 * 256 + r2" by (simp add: q3_def r2_def)
  have "q3 < 256" using d unfolding q3_def q2_def q1_def
    by (simp add: div_mult2_eq[symmetric] less_mult_imp_div_less)
  then have 4: "q3 mod 256 = q3" by simp
  have "IVAL (SIVAL d @ rest) = r0 + 256 * (r1 + 256 * (r2 + 256 * (q3 mod 256)))"
    by (simp add: SIVAL_def q1_def q2_def q3_def r0_def r1_def r2_def)
  also have "\<dots> = r0 + 256 * (r1 + 256 * (r2 + 256 * q3))" using 4 by simp
  also have "\<dots> = d" using 1 2 3 by simp
  finally show ?thesis .
qed

lemma tdb_unpack_d_SIVAL: "d < 2 ^ 32 \<Longrightarrow> tdb_unpack_d (SIVAL d @ rest) = Some (d, 4)"
  by (simp add: tdb_unpack_d_def IVAL_SIVAL)

lemma tdb_unpack_f_packed:
  "CHR 0x00 \<notin> set s \<Longrightarrow> length s < 256 \<Longrightarrow> tdb_unpack_f (s @ CHR 0x00 # rest) = Some (s, length s + 1)"
proof -
  assume a: "CHR 0x00 \<notin> set s" "length s < 256"
  have tw: "takeWhile (\<lambda>c. c \<noteq> CHR 0x00) (s @ CHR 0x00 # rest) = s"
    using a(1) by (induction s) auto
  show ?thesis using a(2) by (simp add: tdb_unpack_f_def sizeof_fstring_def tw Let_def)
qed

lemma tdb_unpack_f_nil [simp]: "tdb_unpack_f [] = None"
  by (simp add: tdb_unpack_f_def)

lemma tdb_unpack_B_packed:
  "length dat < 2 ^ 32 \<Longrightarrow>
   tdb_unpack_B (SIVAL (length dat) @ dat @ rest) =
     (Some (length dat), (if dat = [] then None else Some dat), Some (4 + length dat))"
  by (simp add: tdb_unpack_B_def IVAL_SIVAL Let_def)

lemma defined_bytes_map_Some [simp]: "defined_bytes (map Some bs) = Some bs"
  by (induction bs) auto

lemma memcpy_at_end:
  "length bs \<le> n \<Longrightarrow>
   memcpy_at (map Some pre @ replicate n None) (length pre) bs =
     map Some (pre @ bs) @ replicate (n - length bs) None"
  by (simp add: memcpy_at_def)

lemma tdb_pack_f_fits:
  "int (length k) + 1 \<le> bufsize \<Longrightarrow>
   tdb_pack buf off bufsize [Pack_f k] = (memcpy_at buf off (k @ [CHR 0x00]), int (length k) + 1)"
  by (simp add: Let_def)

lemma tdb_pack_f_nofit:
  "bufsize < int (length k) + 1 \<Longrightarrow>
   tdb_pack buf off bufsize [Pack_f k] = (buf, int (length k) + 1)"
  by (simp add: Let_def)

lemma tdb_pack_d_fits:
  "4 \<le> bufsize \<Longrightarrow> tdb_pack buf off bufsize [Pack_d d] = (memcpy_at buf off (SIVAL d), 4)"
  by (simp add: Let_def)

lemma store_keys_pack_loop_step_fits:
  assumes "len + (length k + 1) \<le> buflen" "buflen < 2 ^ 32"
  shows "store_keys_pack_loop buffer buflen len (k # ks) =
         store_keys_pack_loop (memcpy_at buffer len (k @ [CHR 0x00])) buflen (len + (length k + 1)) ks"
proof -
  have p: "tdb_pack buffer len (int buflen - int len) [Pack_f k] =
           (memcpy_at buffer len (k @ [CHR 0x00]), int (length k) + 1)"
    using assms by (intro tdb_pack_f_fits) linarith
  have n: "nat (int (length k) + 1) = length k + 1" by simp
  have m: "(len + (length k + 1)) mod 2 ^ 32 = len + (length k + 1)"
    using assms by simp
  have c: "\<not> len + (length k + 1) > buflen" using assms by simp
  show ?thesis
    unfolding store_keys_pack_loop.simps p prod.case n m Let_def using c by simp
qed

lemma store_keys_pack_loop_fits:
  "length (concat (map (\<lambda>k. k @ [CHR 0x00]) ks)) \<le> n \<Longrightarrow> length pre + n < 2 ^ 32 \<Longrightarrow>
   store_keys_pack_loop (map Some pre @ replicate n None) (length pre + n) (length pre) ks =
     (map Some (pre @ concat (map (\<lambda>k. k @ [CHR 0x00]) ks)) @
        replicate (n - length (concat (map (\<lambda>k. k @ [CHR 0x00]) ks))) None,
      length pre + length (concat (map (\<lambda>k. k @ [CHR 0x00]) ks)))"
proof (induction ks arbitrary: pre n)
  case Nil
  then show ?case by simp
next
  case (Cons k ks)
  let ?e = "k @ [CHR 0x00]"
  let ?body = "concat (map (\<lambda>k. k @ [CHR 0x00]) ks)"
  let ?n' = "n - length ?e"
  have fit: "length ?e + length ?body \<le> n" using Cons.prems(1) by simp
  have s1: "store_keys_pack_loop (map Some pre @ replicate n None) (length pre + n) (length pre) (k # ks) =
            store_keys_pack_loop (memcpy_at (map Some pre @ replicate n None) (length pre) ?e)
              (length pre + n) (length pre + (length k + 1)) ks"
    using fit Cons.prems(2) by (intro store_keys_pack_loop_step_fits) simp_all
  have s2: "memcpy_at (map Some pre @ replicate n None) (length pre) ?e =
            map Some (pre @ ?e) @ replicate ?n' None"
    using fit by (intro memcpy_at_end) simp
  have s3: "length pre + n = length (pre @ ?e) + ?n'" using fit by simp
  have s4: "length pre + (length k + 1) = length (pre @ ?e)" by simp
  have ih: "store_keys_pack_loop (map Some (pre @ ?e) @ replicate ?n' None) (length (pre @ ?e) + ?n') (length (pre @ ?e)) ks =
     (map Some ((pre @ ?e) @ ?body) @ replicate (?n' - length ?body) None,
      length (pre @ ?e) + length ?body)"
    using fit Cons.prems(2) by (intro Cons.IH) simp_all
  have "store_keys_pack_loop (map Some pre @ replicate n None) (length pre + n) (length pre) (k # ks) =
        (map Some ((pre @ ?e) @ ?body) @ replicate (?n' - length ?body) None,
         length (pre @ ?e) + length ?body)"
    unfolding s1 s2 unfolding s3 s4 by (rule ih)
  then show ?case by simp
qed

lemma regdb_store_keys_internal_fits:
  assumes "length (pack_subkeys (subkeys ctr)) \<le> 1024"
  shows "regdb_store_keys_internal tdb key ctr =
           Some (True, tdb\<lparr>tdb_records := (tdb_records tdb)(normalize_reg_path key := Some (pack_subkeys (subkeys ctr))),
                            tdb_seqnum := tdb_bump tdb\<rparr>)"
proof -
  let ?n = "length (subkeys ctr)"
  let ?body = "concat (map (\<lambda>k. k @ [CHR 0x00]) (subkeys ctr))"
  have len: "length ?body \<le> 1020" using assms by (simp add: pack_subkeys_def)
  have p0: "tdb_pack (replicate 1024 None) 0 (int 1024 - 0) [Pack_d ?n] =
            (map Some (SIVAL ?n) @ replicate 1020 None, 4)"
    using memcpy_at_end[of "SIVAL ?n" 1024 "[]"] by (simp add: tdb_pack_d_fits)
  have lp: "store_keys_pack_loop (map Some (SIVAL ?n) @ replicate 1020 None) 1024 (nat 4) (subkeys ctr) =
     (map Some (SIVAL ?n @ ?body) @ replicate (1020 - length ?body) None, 4 + length ?body)"
    using store_keys_pack_loop_fits[of "subkeys ctr" 1020 "SIVAL ?n"] len by simp
  have tk: "take (4 + length ?body) (map Some (SIVAL ?n @ ?body) @ replicate (1020 - length ?body) None) =
            map Some (SIVAL ?n @ ?body)"
    by simp
  have db: "defined_bytes (map Some (SIVAL ?n @ ?body)) = Some (SIVAL ?n @ ?body)"
    by (rule defined_bytes_map_Some)
  show ?thesis
    unfolding regdb_store_keys_internal_def Let_def regsubkey_ctr_numkeys_def p0 prod.case lp tk db option.case
    by (simp add: tdb_store_bystring_def pack_subkeys_def)
qed


lemma key_exists_in_iff:
  "regsubkey_ctr_key_exists_in ks k \<longleftrightarrow> strupper_m k \<in> strupper_m ` set ks"
  by (induction ks) (auto simp: strequal_def)

lemma addkey_subkeys:
  "subkeys (regsubkey_ctr_addkey ctr k) =
     (if strupper_m k \<in> strupper_m ` set (subkeys ctr) then subkeys ctr else subkeys ctr @ [k])"
  by (simp add: regsubkey_ctr_addkey_def regsubkey_ctr_key_exists_def key_exists_in_iff)

lemma addkey_seqnum [simp]:
  "subkeys_seqnum (regsubkey_ctr_addkey ctr k) = subkeys_seqnum ctr"
  by (simp add: regsubkey_ctr_addkey_def)

lemma addkey_existing:
  "strupper_m k \<in> strupper_m ` set (subkeys ctr) \<Longrightarrow> regsubkey_ctr_addkey ctr k = ctr"
  by (simp add: regsubkey_ctr_addkey_def regsubkey_ctr_key_exists_def key_exists_in_iff)

lemma foldl_addkey_seqnum [simp]:
  "subkeys_seqnum (foldl regsubkey_ctr_addkey ctr ks) = subkeys_seqnum ctr"
  by (induction ks arbitrary: ctr) auto

lemma foldl_addkey_distinct:
  "distinct (map strupper_m (subkeys ctr @ ks)) \<Longrightarrow>
   subkeys (foldl regsubkey_ctr_addkey ctr ks) = subkeys ctr @ ks"
proof (induction ks arbitrary: ctr)
  case Nil
  then show ?case by simp
next
  case (Cons k ks)
  have nk: "strupper_m k \<notin> strupper_m ` set (subkeys ctr)" using Cons.prems by auto
  then have a: "subkeys (regsubkey_ctr_addkey ctr k) = subkeys ctr @ [k]"
    by (simp add: addkey_subkeys)
  have "distinct (map strupper_m (subkeys (regsubkey_ctr_addkey ctr k) @ ks))"
    using Cons.prems by (simp add: a)
  from Cons.IH[OF this] show ?case by (simp add: a)
qed

lemma foldl_addkey_superset:
  "set (subkeys ctr) \<subseteq> set (subkeys (foldl regsubkey_ctr_addkey ctr ks))"
  by (induction ks arbitrary: ctr) (force simp: addkey_subkeys)+

lemma foldl_addkey_contains:
  "k \<in> set ks \<Longrightarrow> strupper_m k \<in> strupper_m ` set (subkeys (foldl regsubkey_ctr_addkey ctr ks))"
proof (induction ks arbitrary: ctr)
  case Nil
  then show ?case by simp
next
  case (Cons a ks)
  show ?case
  proof (cases "k = a")
    case True
    have "strupper_m a \<in> strupper_m ` set (subkeys (regsubkey_ctr_addkey ctr a))"
      by (auto simp: addkey_subkeys)
    then show ?thesis
      using foldl_addkey_superset[of "regsubkey_ctr_addkey ctr a" ks] True by auto
  next
    case False
    then show ?thesis using Cons by auto
  qed
qed

lemma fetch_keys_loop_packed:
  assumes "\<forall>k\<in>set ks. CHR 0x00 \<notin> set k \<and> length k < 256"
    and "length (pre @ concat (map (\<lambda>k. k @ [CHR 0x00]) ks) @ post) < 2 ^ 32"
  shows "fetch_keys_loop (pre @ concat (map (\<lambda>k. k @ [CHR 0x00]) ks) @ post) (length ks + m) (length pre) name ctr =
         fetch_keys_loop (pre @ concat (map (\<lambda>k. k @ [CHR 0x00]) ks) @ post) m
           (length pre + length (concat (map (\<lambda>k. k @ [CHR 0x00]) ks)))
           (if ks = [] then name else Some (last ks))
           (foldl regsubkey_ctr_addkey ctr ks)"
  using assms
proof (induction ks arbitrary: pre name ctr)
  case Nil
  then show ?case by simp
next
  case (Cons k ks)
  let ?e = "k @ [CHR 0x00]"
  let ?body = "concat (map (\<lambda>k. k @ [CHR 0x00]) ks)"
  let ?buf = "pre @ concat (map (\<lambda>k. k @ [CHR 0x00]) (k # ks)) @ post"
  have buf: "?buf = (pre @ ?e) @ ?body @ post" by simp
  have k: "CHR 0x00 \<notin> set k" "length k < 256" using Cons.prems(1) by auto
  have dr: "drop (length pre) ?buf = k @ CHR 0x00 # (?body @ post)" by simp
  have un: "tdb_unpack_f (drop (length pre) ?buf) = Some (k, length k + 1)"
    unfolding dr using k by (rule tdb_unpack_f_packed)
  have le: "\<not> length pre > length ?buf" by simp
  have md: "(length pre + (length k + 1)) mod 2 ^ 32 = length (pre @ ?e)"
    using Cons.prems(2) by simp
  have step: "fetch_keys_loop ?buf (length (k # ks) + m) (length pre) name ctr =
        fetch_keys_loop ?buf (length ks + m) (length (pre @ ?e)) (Some k) (regsubkey_ctr_addkey ctr k)"
    using le by (simp only: length_Cons add_Suc fetch_keys_loop.simps un md option.case prod.case if_False)
  have ih: "fetch_keys_loop ((pre @ ?e) @ ?body @ post) (length ks + m) (length (pre @ ?e)) (Some k) (regsubkey_ctr_addkey ctr k) =
         fetch_keys_loop ((pre @ ?e) @ ?body @ post) m (length (pre @ ?e) + length ?body)
           (if ks = [] then Some k else Some (last ks))
           (foldl regsubkey_ctr_addkey (regsubkey_ctr_addkey ctr k) ks)"
    using Cons.prems by (intro Cons.IH) auto
  show ?case
    unfolding step unfolding buf ih by (simp add: add.assoc)
qed


lemma length_normalize [simp]: "length (normalize_reg_path s) = length s"
  by (simp add: normalize_reg_path_def strupper_m_def string_sub_backslash_def)

lemma normalize_append: "normalize_reg_path (a @ b) = normalize_reg_path a @ normalize_reg_path b"
  by (simp add: normalize_reg_path_def strupper_m_def string_sub_backslash_def)

lemma normalize_slash [simp]: "normalize_reg_path ''/'' = ''/''"
  by (simp add: normalize_reg_path_def strupper_m_def string_sub_backslash_def toupper_ascii_def)

lemma fetch_keys_loop_None_cong:
  "fetch_keys_loop buf n len nm c = None \<Longrightarrow> fetch_keys_loop buf n len nm c' = None"
proof (induction n arbitrary: len nm c c')
  case 0
  then show ?case by simp
next
  case (Suc n)
  from Suc.prems show ?case
    by (auto split: option.splits if_splits dest: Suc.IH)
qed

lemma fetch_keys_present_ok:
  assumes "\<not> tdb_lock_timeout tdb (normalize_reg_path key)"
    and "tdb_records tdb (normalize_reg_path key) = Some buf"
    and "subkeys_record_ok buf"
  shows "\<exists>r c. regdb_fetch_keys tdb key ctr = Some (r, c) \<and> r \<noteq> -1"
proof -
  from assms(3) obtain n len where u: "tdb_unpack_d buf = Some (n, len)"
    and r: "int_of_uint32 n \<noteq> -1"
    and d: "fetch_keys_loop buf n len None regsubkey_ctr_zero \<noteq> None"
    by (auto simp: subkeys_record_ok_def split: option.splits)
  have "fetch_keys_loop buf n len None (ctr\<lparr>subkeys_seqnum := regdb_get_seqnum tdb\<rparr>) \<noteq> None"
  proof
    assume "fetch_keys_loop buf n len None (ctr\<lparr>subkeys_seqnum := regdb_get_seqnum tdb\<rparr>) = None"
    then have "fetch_keys_loop buf n len None regsubkey_ctr_zero = None"
      by (rule fetch_keys_loop_None_cong)
    with d show False by simp
  qed
  then obtain c where c: "fetch_keys_loop buf n len None (ctr\<lparr>subkeys_seqnum := regdb_get_seqnum tdb\<rparr>) = Some c"
    by auto
  show ?thesis
    using assms(1,2) u r c
    by (simp add: regdb_fetch_keys_def normalize_reg_path_def[symmetric]
        tdb_read_lock_bystring_with_timeout_def tdb_fetch_bystring_def)
qed

lemma length_pack_subkeys_ge: "length ks \<le> length (concat (map (\<lambda>k. k @ [CHR 0x00]) ks))"
  by (induction ks) auto

lemma int_of_uint32_small: "n < 2 ^ 31 \<Longrightarrow> int_of_uint32 n = int n"
  by (simp add: int_of_uint32_def)




lemma tdb_bump_in_trans: "tdb_transaction t \<noteq> None \<Longrightarrow> tdb_bump t = tdb_seqnum t"
  by (simp add: tdb_bump_def)

lemma delete_in_trans:
  "tdb_transaction t \<noteq> None \<Longrightarrow>
   tdb_delete_bystring t k = (0, t\<lparr>tdb_records := (tdb_records t)(k := None)\<rparr>)"
  by (simp add: tdb_delete_bystring_def tdb_bump_in_trans)

lemma store_internal_in_trans:
  "tdb_transaction t \<noteq> None \<Longrightarrow> length (pack_subkeys (subkeys ctr)) \<le> 1024 \<Longrightarrow>
   regdb_store_keys_internal t key ctr =
     Some (True, t\<lparr>tdb_records := (tdb_records t)(normalize_reg_path key := Some (pack_subkeys (subkeys ctr)))\<rparr>)"
  by (simp add: regdb_store_keys_internal_fits tdb_bump_in_trans)

lemma delete_loop_in_trans:
  assumes "tdb_transaction t \<noteq> None"
  shows "store_keys_delete_loop t key ctr olds =
           (True, t\<lparr>tdb_records :=
              (\<lambda>k. if \<exists>oldkeyname\<in>set olds. \<not> regsubkey_ctr_key_exists ctr oldkeyname \<and>
                              (k = normalize_reg_path (key @ ''/'' @ oldkeyname) \<or>
                               k = normalize_reg_path (REG_VALUE_PREFIX @ ''/'' @ key @ ''/'' @ oldkeyname))
                    then None else tdb_records t k)\<rparr>)"
  using assms
proof (induction olds arbitrary: t)
  case Nil
  show ?case by simp
next
  case (Cons a olds)
  show ?case
  proof (cases "regsubkey_ctr_key_exists ctr a")
    case True
    have feq: "(\<lambda>k. if \<exists>oldkeyname\<in>set (a # olds). \<not> regsubkey_ctr_key_exists ctr oldkeyname \<and>
                              (k = normalize_reg_path (key @ ''/'' @ oldkeyname) \<or>
                               k = normalize_reg_path (REG_VALUE_PREFIX @ ''/'' @ key @ ''/'' @ oldkeyname))
                    then None else tdb_records t k) =
               (\<lambda>k. if \<exists>oldkeyname\<in>set olds. \<not> regsubkey_ctr_key_exists ctr oldkeyname \<and>
                              (k = normalize_reg_path (key @ ''/'' @ oldkeyname) \<or>
                               k = normalize_reg_path (REG_VALUE_PREFIX @ ''/'' @ key @ ''/'' @ oldkeyname))
                    then None else tdb_records t k)"
      using True by (intro ext) auto
    have step: "store_keys_delete_loop t key ctr (a # olds) = store_keys_delete_loop t key ctr olds"
      using True by simp
    show ?thesis unfolding step feq by (rule Cons.IH[OF Cons.prems])
  next
    case False
    let ?p1 = "normalize_reg_path (key @ ''/'' @ a)"
    let ?p2 = "normalize_reg_path (REG_VALUE_PREFIX @ ''/'' @ key @ ''/'' @ a)"
    let ?t2 = "t\<lparr>tdb_records := ((tdb_records t)(?p1 := None))(?p2 := None)\<rparr>"
    have tr: "tdb_transaction ?t2 \<noteq> None" using Cons.prems by simp
    have step: "store_keys_delete_loop t key ctr (a # olds) = store_keys_delete_loop ?t2 key ctr olds"
      using False Cons.prems by (simp add: delete_in_trans Let_def)
    have feq: "(\<lambda>k. if \<exists>oldkeyname\<in>set (a # olds). \<not> regsubkey_ctr_key_exists ctr oldkeyname \<and>
                              (k = normalize_reg_path (key @ ''/'' @ oldkeyname) \<or>
                               k = normalize_reg_path (REG_VALUE_PREFIX @ ''/'' @ key @ ''/'' @ oldkeyname))
                    then None else tdb_records t k) =
               (\<lambda>k. if \<exists>oldkeyname\<in>set olds. \<not> regsubkey_ctr_key_exists ctr oldkeyname \<and>
                              (k = normalize_reg_path (key @ ''/'' @ oldkeyname) \<or>
                               k = normalize_reg_path (REG_VALUE_PREFIX @ ''/'' @ key @ ''/'' @ oldkeyname))
                    then None else tdb_records ?t2 k)"
      using False by (intro ext) auto
    show ?thesis unfolding step feq using Cons.IH[OF tr] by simp
  qed
qed


lemma subkeys_record_ok_empty: "subkeys_record_ok (pack_subkeys [])"
proof -
  have "tdb_unpack_d (SIVAL 0 @ []) = Some (0, 4)" by (rule tdb_unpack_d_SIVAL) simp
  then show ?thesis
    by (simp add: subkeys_record_ok_def pack_subkeys_def int_of_uint32_def)
qed

lemma fetch_keys_absent:
  "\<not> tdb_lock_timeout tdb (normalize_reg_path key) \<Longrightarrow> tdb_records tdb (normalize_reg_path key) = None \<Longrightarrow>
   regdb_fetch_keys tdb key ctr = Some (-1, ctr\<lparr>subkeys_seqnum := tdb_seqnum tdb\<rparr>)"
  by (simp add: regdb_fetch_keys_def normalize_reg_path_def tdb_read_lock_bystring_with_timeout_def
      tdb_fetch_bystring_def regdb_get_seqnum_def tdb_get_seqnum_def)

lemma create_loop_in_trans:
  assumes "tdb_transaction t \<noteq> None"
    and "\<forall>n\<in>set news. \<not> tdb_lock_timeout t (normalize_reg_path (key @ ''/'' @ n))"
    and "\<forall>n\<in>set news. case tdb_records t (normalize_reg_path (key @ ''/'' @ n)) of
                           None \<Rightarrow> True | Some buf \<Rightarrow> subkeys_record_ok buf"
  shows "store_keys_create_loop t key news =
           Some (True, t\<lparr>tdb_records :=
              (\<lambda>k. if (\<exists>n\<in>set news. k = normalize_reg_path (key @ ''/'' @ n)) \<and> tdb_records t k = None
                    then Some (pack_subkeys []) else tdb_records t k)\<rparr>)"
  using assms
proof (induction news arbitrary: t)
  case Nil
  show ?case by simp
next
  case (Cons a news)
  let ?p = "normalize_reg_path (key @ ''/'' @ a)"
  have lock: "\<not> tdb_lock_timeout t ?p" using Cons.prems(2) by simp
  show ?case
  proof (cases "tdb_records t ?p")
    case None
    let ?c1 = "regsubkey_ctr_zero\<lparr>subkeys_seqnum := tdb_seqnum t\<rparr>"
    let ?t1 = "t\<lparr>tdb_records := (tdb_records t)(?p := Some (pack_subkeys []))\<rparr>"
    have f: "regdb_fetch_keys t (key @ ''/'' @ a) regsubkey_ctr_zero = Some (-1, ?c1)"
      using lock None by (rule fetch_keys_absent)
    have sk: "subkeys ?c1 = []" by (simp add: regsubkey_ctr_zero_def)
    have st: "regdb_store_keys_internal t (key @ ''/'' @ a) ?c1 = Some (True, ?t1)"
      using store_internal_in_trans[OF Cons.prems(1), of ?c1 "key @ ''/'' @ a"]
      by (simp add: sk pack_subkeys_def)
    have step: "store_keys_create_loop t key (a # news) = store_keys_create_loop ?t1 key news"
      by (simp only: store_keys_create_loop.simps Let_def f st option.case prod.case if_True simp_thms if_False)
    have p1: "tdb_transaction ?t1 \<noteq> None" using Cons.prems(1) by simp
    have p2: "\<forall>n\<in>set news. \<not> tdb_lock_timeout ?t1 (normalize_reg_path (key @ ''/'' @ n))"
      using Cons.prems(2) by simp
    have p3: "\<forall>n\<in>set news. case tdb_records ?t1 (normalize_reg_path (key @ ''/'' @ n)) of
                           None \<Rightarrow> True | Some buf \<Rightarrow> subkeys_record_ok buf"
      using Cons.prems(3) subkeys_record_ok_empty by auto
    have feq: "(\<lambda>k. if (\<exists>n\<in>set (a # news). k = normalize_reg_path (key @ ''/'' @ n)) \<and> tdb_records t k = None
                    then Some (pack_subkeys []) else tdb_records t k) =
               (\<lambda>k. if (\<exists>n\<in>set news. k = normalize_reg_path (key @ ''/'' @ n)) \<and> tdb_records ?t1 k = None
                    then Some (pack_subkeys []) else tdb_records ?t1 k)"
      using None by (intro ext) auto
    show ?thesis unfolding step feq using Cons.IH[OF p1 p2 p3] by simp
  next
    case (Some buf)
    have ok: "subkeys_record_ok buf" using Cons.prems(3) Some by auto
    from fetch_keys_present_ok[OF lock Some ok, of regsubkey_ctr_zero]
    obtain r c where f: "regdb_fetch_keys t (key @ ''/'' @ a) regsubkey_ctr_zero = Some (r, c)" and r: "r \<noteq> -1"
      by blast
    have step: "store_keys_create_loop t key (a # news) = store_keys_create_loop t key news"
      using r by (simp only: store_keys_create_loop.simps Let_def f option.case prod.case if_False)
    have p3: "\<forall>n\<in>set news. case tdb_records t (normalize_reg_path (key @ ''/'' @ n)) of
                           None \<Rightarrow> True | Some buf \<Rightarrow> subkeys_record_ok buf"
      using Cons.prems(3) by auto
    have feq: "(\<lambda>k. if (\<exists>n\<in>set (a # news). k = normalize_reg_path (key @ ''/'' @ n)) \<and> tdb_records t k = None
                    then Some (pack_subkeys []) else tdb_records t k) =
               (\<lambda>k. if (\<exists>n\<in>set news. k = normalize_reg_path (key @ ''/'' @ n)) \<and> tdb_records t k = None
                    then Some (pack_subkeys []) else tdb_records t k)"
      using Some by (intro ext) auto
    have p2: "\<forall>n\<in>set news. \<not> tdb_lock_timeout t (normalize_reg_path (key @ ''/'' @ n))"
      using Cons.prems(2) by simp
    show ?thesis unfolding step feq by (rule Cons.IH[OF Cons.prems(1) p2 p3])
  qed
qed


lemma cmp_loop_eq:
  "length xs = length ys \<Longrightarrow> (store_keys_cmp_loop xs ys = length xs) = (xs = ys)"
proof (induction xs ys rule: store_keys_cmp_loop.induct)
  case (1 a as b bs)
  then show ?case by auto
qed auto

lemma fetch_keys_trans_irrelevant [simp]:
  "regdb_fetch_keys (t\<lparr>tdb_transaction := x\<rparr>) key c = regdb_fetch_keys t key c"
  by (simp add: regdb_fetch_keys_def tdb_read_lock_bystring_with_timeout_def tdb_fetch_bystring_def
      regdb_get_seqnum_def tdb_get_seqnum_def Let_def)

lemma child_path_neq_key: "normalize_reg_path (key @ ''/'' @ n) \<noteq> normalize_reg_path key"
proof
  assume "normalize_reg_path (key @ ''/'' @ n) = normalize_reg_path key"
  then have "length (normalize_reg_path (key @ ''/'' @ n)) = length (normalize_reg_path key)" by simp
  then show False by simp
qed

lemma value_path_neq_key:
  "normalize_reg_path (REG_VALUE_PREFIX @ ''/'' @ key @ ''/'' @ n) \<noteq> normalize_reg_path key"
proof
  assume "normalize_reg_path (REG_VALUE_PREFIX @ ''/'' @ key @ ''/'' @ n) = normalize_reg_path key"
  then have "length (normalize_reg_path (REG_VALUE_PREFIX @ ''/'' @ key @ ''/'' @ n)) = length (normalize_reg_path key)"
    by simp
  then show False by simp
qed

lemma regdb_store_keys_slow_gen:
  assumes lock: "\<forall>n\<in>set (subkeys ctr). \<not> tdb_lock_timeout tdb (normalize_reg_path (key @ ''/'' @ n))"
    and tr: "trans_ok tdb"
    and f0: "regdb_fetch_keys tdb key regsubkey_ctr_zero = Some (r, old_subkeys)"
    and slow: "subkeys ctr = [] \<or> subkeys old_subkeys \<noteq> subkeys ctr"
    and si: "\<And>t. tdb_transaction t \<noteq> None \<Longrightarrow>
               regdb_store_keys_internal t key ctr =
                 Some (True, t\<lparr>tdb_records := (tdb_records t)(normalize_reg_path key := Some rec)\<rparr>)"
    and emp: "subkeys ctr = [] \<Longrightarrow> rec = pack_subkeys []"
    and ch: "\<forall>n\<in>set (subkeys ctr). case tdb_records tdb (normalize_reg_path (key @ ''/'' @ n)) of
                           None \<Rightarrow> True | Some buf \<Rightarrow> subkeys_record_ok buf"
  shows "regdb_store_keys tdb key ctr =
    Some (True, tdb\<lparr>tdb_records :=
      (\<lambda>k. if k = normalize_reg_path key then Some rec
            else if \<exists>n\<in>set (subkeys ctr). k = normalize_reg_path (key @ ''/'' @ n) then
              (if (\<exists>oldkeyname\<in>set (subkeys old_subkeys). \<not> regsubkey_ctr_key_exists ctr oldkeyname \<and>
                       (k = normalize_reg_path (key @ ''/'' @ oldkeyname) \<or>
                        k = normalize_reg_path (REG_VALUE_PREFIX @ ''/'' @ key @ ''/'' @ oldkeyname))) \<or>
                  tdb_records tdb k = None
               then Some (pack_subkeys []) else tdb_records tdb k)
            else if \<exists>oldkeyname\<in>set (subkeys old_subkeys). \<not> regsubkey_ctr_key_exists ctr oldkeyname \<and>
                       (k = normalize_reg_path (key @ ''/'' @ oldkeyname) \<or>
                        k = normalize_reg_path (REG_VALUE_PREFIX @ ''/'' @ key @ ''/'' @ oldkeyname))
            then None else tdb_records tdb k),
      tdb_seqnum := (if tdb_transaction tdb = None then tdb_seqnum tdb + 1 else tdb_seqnum tdb)\<rparr>)"
proof -
  let ?P = "normalize_reg_path key"
  let ?D = "\<lambda>k. \<exists>oldkeyname\<in>set (subkeys old_subkeys). \<not> regsubkey_ctr_key_exists ctr oldkeyname \<and>
                       (k = normalize_reg_path (key @ ''/'' @ oldkeyname) \<or>
                        k = normalize_reg_path (REG_VALUE_PREFIX @ ''/'' @ key @ ''/'' @ oldkeyname))"
  let ?C = "\<lambda>k. \<exists>n\<in>set (subkeys ctr). k = normalize_reg_path (key @ ''/'' @ n)"
  let ?R = "tdb_records tdb"
  let ?R1 = "?R(?P := Some rec)"
  let ?R3 = "\<lambda>k. if ?D k then None else ?R1 k"
  let ?R5 = "\<lambda>k. if ?C k \<and> ?R3 k = None then Some (pack_subkeys []) else ?R3 k"
  define tdb1 where "tdb1 = snd (tdb_transaction_start tdb)"
  have s: "tdb_transaction_start tdb = (0, tdb1)"
    unfolding tdb1_def by (cases "tdb_transaction tdb") (auto simp: tdb_transaction_start_def)
  have t1: "tdb_transaction tdb1 \<noteq> None"
    unfolding tdb1_def by (cases "tdb_transaction tdb") (auto simp: tdb_transaction_start_def)
  have t1r: "tdb1 = tdb\<lparr>tdb_transaction := tdb_transaction tdb1\<rparr>"
    unfolding tdb1_def by (cases "tdb_transaction tdb") (auto simp: tdb_transaction_start_def)
  have r1: "tdb_records tdb1 = tdb_records tdb"
    by (subst t1r) simp
  have l1: "tdb_lock_timeout tdb1 = tdb_lock_timeout tdb"
    by (subst t1r) simp
  have cm: "tdb_transaction_commit (tdb1\<lparr>tdb_records := R\<rparr>) =
                 (0, tdb\<lparr>tdb_records := R,
                         tdb_seqnum := (if tdb_transaction tdb = None then tdb_seqnum tdb + 1 else tdb_seqnum tdb)\<rparr>)" for R
    using tr unfolding tdb1_def
    by (cases "tdb_transaction tdb")
       (auto simp: tdb_transaction_start_def tdb_transaction_commit_def trans_ok_def)
  have notfast: "\<not> ((regsubkey_ctr_numkeys ctr \<noteq> 0 \<and> regsubkey_ctr_numkeys old_subkeys \<noteq> 0) \<and>
           regsubkey_ctr_numkeys ctr = regsubkey_ctr_numkeys old_subkeys \<and>
           store_keys_cmp_loop (subkeys ctr) (subkeys old_subkeys) = regsubkey_ctr_numkeys ctr)"
    using slow cmp_loop_eq[of "subkeys ctr" "subkeys old_subkeys"]
    by (auto simp: regsubkey_ctr_numkeys_def)
  have f1: "regdb_fetch_keys tdb1 key regsubkey_ctr_zero = Some (r, old_subkeys)"
    by (subst t1r) (simp add: f0)
  have s2: "regdb_store_keys_internal tdb1 key ctr = Some (True, tdb1\<lparr>tdb_records := ?R1\<rparr>)"
    using si[OF t1] by (simp add: r1)
  have t2: "tdb_transaction (tdb1\<lparr>tdb_records := ?R1\<rparr>) \<noteq> None" using t1 by simp
  have s3: "store_keys_delete_loop (tdb1\<lparr>tdb_records := ?R1\<rparr>) key ctr (subkeys old_subkeys) =
            (True, tdb1\<lparr>tdb_records := ?R3\<rparr>)"
    using delete_loop_in_trans[OF t2, of key ctr "subkeys old_subkeys"] by (simp cong: if_cong)
  have t3: "tdb_transaction (tdb1\<lparr>tdb_records := ?R3\<rparr>) \<noteq> None" using t1 by simp
  have DP: "\<not> ?D ?P" using child_path_neq_key value_path_neq_key by metis
  have s4: "(if regsubkey_ctr_numkeys ctr = 0
             then regdb_store_keys_internal (tdb1\<lparr>tdb_records := ?R3\<rparr>) key regsubkey_ctr_zero
             else Some (True, tdb1\<lparr>tdb_records := ?R3\<rparr>)) = Some (True, tdb1\<lparr>tdb_records := ?R3\<rparr>)"
  proof (cases "subkeys ctr = []")
    case True
    have z: "length (pack_subkeys (subkeys regsubkey_ctr_zero)) \<le> 1024"
      by (simp add: regsubkey_ctr_zero_def pack_subkeys_def)
    have "?R3(?P := Some (pack_subkeys [])) = ?R3"
      using DP True emp by (intro ext) auto
    then show ?thesis
      using True store_internal_in_trans[OF t3 z, of key]
      by (simp add: regsubkey_ctr_numkeys_def regsubkey_ctr_zero_def)
  next
    case False
    then show ?thesis by (simp add: regsubkey_ctr_numkeys_def)
  qed
  have l4: "\<forall>n\<in>set (subkeys ctr).
              \<not> tdb_lock_timeout (tdb1\<lparr>tdb_records := ?R3\<rparr>) (normalize_reg_path (key @ ''/'' @ n))"
    using lock by (simp add: l1)
  have c4: "\<forall>n\<in>set (subkeys ctr). case tdb_records (tdb1\<lparr>tdb_records := ?R3\<rparr>) (normalize_reg_path (key @ ''/'' @ n)) of
                           None \<Rightarrow> True | Some buf \<Rightarrow> subkeys_record_ok buf"
    using ch child_path_neq_key by auto
  have s5: "store_keys_create_loop (tdb1\<lparr>tdb_records := ?R3\<rparr>) key (subkeys ctr) =
            Some (True, tdb1\<lparr>tdb_records := ?R5\<rparr>)"
    using create_loop_in_trans[OF t3 l4 c4] by (simp cong: if_cong)
  have final: "?R5 =
      (\<lambda>k. if k = ?P then Some rec
            else if ?C k then (if ?D k \<or> ?R k = None then Some (pack_subkeys []) else ?R k)
            else if ?D k then None else ?R k)"
    using DP child_path_neq_key by (intro ext) auto
  show ?thesis
    unfolding regdb_store_keys_def f0 option.case prod.case
    using notfast
    by (simp only: if_False s prod.case f1 option.case s2 not_True_eq_False s3 s4 s5 cm final[symmetric])
       simp
qed



lemmas eval_path = normalize_reg_path_def normalize_dbkey_def strupper_m_def string_sub_backslash_def
  toupper_ascii_def char_of_def bit_Suc_0_iff REG_VALUE_PREFIX_def REG_SECDESC_PREFIX_def

subsection \<open>More on the packing loop\<close>

lemma store_keys_pack_loop_append_fits:
  "length (concat (map (\<lambda>k. k @ [CHR 0x00]) ks1)) \<le> n \<Longrightarrow> length pre + n < 2 ^ 32 \<Longrightarrow>
   store_keys_pack_loop (map Some pre @ replicate n None) (length pre + n) (length pre) (ks1 @ ks2) =
   store_keys_pack_loop
     (map Some (pre @ concat (map (\<lambda>k. k @ [CHR 0x00]) ks1)) @
        replicate (n - length (concat (map (\<lambda>k. k @ [CHR 0x00]) ks1))) None)
     (length pre + n) (length pre + length (concat (map (\<lambda>k. k @ [CHR 0x00]) ks1))) ks2"
proof (induction ks1 arbitrary: pre n)
  case Nil
  then show ?case by simp
next
  case (Cons k ks)
  let ?e = "k @ [CHR 0x00]"
  let ?body = "concat (map (\<lambda>k. k @ [CHR 0x00]) ks)"
  let ?n' = "n - length ?e"
  have fit: "length ?e + length ?body \<le> n" using Cons.prems(1) by simp
  have s1: "store_keys_pack_loop (map Some pre @ replicate n None) (length pre + n) (length pre) ((k # ks) @ ks2) =
            store_keys_pack_loop (memcpy_at (map Some pre @ replicate n None) (length pre) ?e)
              (length pre + n) (length pre + (length k + 1)) (ks @ ks2)"
    unfolding append_Cons using fit Cons.prems(2) by (intro store_keys_pack_loop_step_fits) simp_all
  have s2: "memcpy_at (map Some pre @ replicate n None) (length pre) ?e =
            map Some (pre @ ?e) @ replicate ?n' None"
    using fit by (intro memcpy_at_end) simp
  have s3: "length pre + n = length (pre @ ?e) + ?n'" using fit by simp
  have s4: "length pre + (length k + 1) = length (pre @ ?e)" by simp
  have ih: "store_keys_pack_loop (map Some (pre @ ?e) @ replicate ?n' None) (length (pre @ ?e) + ?n') (length (pre @ ?e)) (ks @ ks2) =
     store_keys_pack_loop (map Some ((pre @ ?e) @ ?body) @ replicate (?n' - length ?body) None)
       (length (pre @ ?e) + ?n') (length (pre @ ?e) + length ?body) ks2"
    using fit Cons.prems(2) by (intro Cons.IH) simp_all
  have "store_keys_pack_loop (map Some pre @ replicate n None) (length pre + n) (length pre) ((k # ks) @ ks2) =
     store_keys_pack_loop (map Some ((pre @ ?e) @ ?body) @ replicate (?n' - length ?body) None)
       (length (pre @ ?e) + ?n') (length (pre @ ?e) + length ?body) ks2"
    unfolding s1 s2 unfolding s3 s4 by (rule ih)
  then show ?case using fit by (simp add: add.assoc del: store_keys_pack_loop.simps)
qed

lemma store_keys_pack_loop_step_overflow:
  assumes "buflen < len + (length k + 1)" "len \<le> buflen" "(len + (length k + 1)) * 2 < 2 ^ 32"
  shows "store_keys_pack_loop buffer buflen len (k # ks) =
         store_keys_pack_loop
           (memcpy_at (realloc buffer ((len + (length k + 1)) * 2)) (len + (length k + 1)) (k @ [CHR 0x00]))
           ((len + (length k + 1)) * 2) (length k + 1) ks"
proof -
  have p: "tdb_pack buffer len (int buflen - int len) [Pack_f k] = (buffer, int (length k) + 1)"
    using assms by (intro tdb_pack_f_nofit) linarith
  have n: "nat (int (length k) + 1) = length k + 1" by simp
  have m: "(len + (length k + 1)) mod 2 ^ 32 = len + (length k + 1)"
    using assms by simp
  have m2: "(len + (length k + 1)) * 2 mod 2 ^ 32 = (len + (length k + 1)) * 2"
    using assms by simp
  have c: "len + (length k + 1) > buflen" using assms by simp
  have p2: "tdb_pack (realloc buffer ((len + (length k + 1)) * 2)) (len + (length k + 1))
              (int ((len + (length k + 1)) * 2) - int (len + (length k + 1))) [Pack_f k] =
            (memcpy_at (realloc buffer ((len + (length k + 1)) * 2)) (len + (length k + 1)) (k @ [CHR 0x00]),
             int (length k) + 1)"
    by (intro tdb_pack_f_fits) simp
  show ?thesis
    unfolding store_keys_pack_loop.simps p prod.case n m Let_def m2 using c
    by (simp only: if_True p2 prod.case n)
qed

lemma regdb_store_keys_internal_rec:
  assumes "store_keys_pack_loop (map Some (SIVAL (length (subkeys ctr))) @ replicate 1020 None) 1024 4 (subkeys ctr) = (buf, len)"
    and "defined_bytes (take len buf) = Some rec"
  shows "regdb_store_keys_internal tdb key ctr =
           Some (True, tdb\<lparr>tdb_records := (tdb_records tdb)(normalize_reg_path key := Some rec),
                            tdb_seqnum := tdb_bump tdb\<rparr>)"
proof -
  let ?n = "length (subkeys ctr)"
  have p0: "tdb_pack (replicate 1024 None) 0 (int 1024 - 0) [Pack_d ?n] =
            (map Some (SIVAL ?n) @ replicate 1020 None, 4)"
    using memcpy_at_end[of "SIVAL ?n" 1024 "[]"] by (simp add: tdb_pack_d_fits)
  have n4: "nat 4 = 4" by simp
  show ?thesis
    unfolding regdb_store_keys_internal_def Let_def regsubkey_ctr_numkeys_def p0 prod.case n4 assms option.case
    by (simp add: tdb_store_bystring_def)
qed


lemma big_pack:
  "store_keys_pack_loop (map Some (SIVAL 6) @ replicate 1020 None) 1024 4
     [''a'', replicate 254 (CHR ''x'') @ ''1'', replicate 254 (CHR ''x'') @ ''2'',
      replicate 254 (CHR ''x'') @ ''3'', replicate 254 (CHR ''x'') @ ''4'', ''b''] = (buf, len) \<Longrightarrow>
   defined_bytes (take len buf) = Some (SIVAL 6 @ ''a'' @ [CHR 0x00] @ replicate 250 (CHR ''x'') @ ''b'' @ [CHR 0x00])"
proof -
  let ?ks1 = "[''a'', replicate 254 (CHR ''x'') @ ''1'', replicate 254 (CHR ''x'') @ ''2'',
      replicate 254 (CHR ''x'') @ ''3'']"
  let ?x4 = "replicate 254 (CHR ''x'') @ ''4''"
  let ?pre = "SIVAL 6 @ concat (map (\<lambda>k. k @ [CHR 0x00]) ?ks1)"
  assume a: "store_keys_pack_loop (map Some (SIVAL 6) @ replicate 1020 None) 1024 4
     [''a'', replicate 254 (CHR ''x'') @ ''1'', replicate 254 (CHR ''x'') @ ''2'',
      replicate 254 (CHR ''x'') @ ''3'', replicate 254 (CHR ''x'') @ ''4'', ''b''] = (buf, len)"
  have e1: "store_keys_pack_loop (map Some (SIVAL 6) @ replicate 1020 None) (length (SIVAL 6) + 1020) (length (SIVAL 6)) (?ks1 @ [?x4, ''b'']) =
        store_keys_pack_loop (map Some ?pre @ replicate 250 None) 1024 774 [?x4, ''b'']"
    by (subst store_keys_pack_loop_append_fits) simp_all
  have e2: "store_keys_pack_loop (map Some ?pre @ replicate 250 None) 1024 774 [?x4, ''b''] =
        store_keys_pack_loop (memcpy_at (realloc (map Some ?pre @ replicate 250 None) 2060) 1030 (?x4 @ [CHR 0x00])) 2060 256 [''b'']"
    by (subst store_keys_pack_loop_step_overflow) simp_all
  have e3: "store_keys_pack_loop (memcpy_at (realloc (map Some ?pre @ replicate 250 None) 2060) 1030 (?x4 @ [CHR 0x00])) 2060 256 [''b''] =
        (memcpy_at (memcpy_at (realloc (map Some ?pre @ replicate 250 None) 2060) 1030 (?x4 @ [CHR 0x00])) 256 (''b'' @ [CHR 0x00]), 258)"
    by (subst store_keys_pack_loop_step_fits) simp_all
  have b: "buf = memcpy_at (memcpy_at (realloc (map Some ?pre @ replicate 250 None) 2060) 1030 (?x4 @ [CHR 0x00])) 256 (''b'' @ [CHR 0x00])"
     and l: "len = 258"
    using a e1 e2 e3 by simp_all
  have t: "take 258 buf = map Some (SIVAL 6 @ ''a'' @ [CHR 0x00] @ replicate 250 (CHR ''x'') @ ''b'' @ [CHR 0x00])"
    unfolding b by (simp add: memcpy_at_def realloc_def)
  show ?thesis unfolding l t by (rule defined_bytes_map_Some)
qed


lemma fetch_keys_loop_fail_step:
  "len \<le> length buf \<Longrightarrow> tdb_unpack_f (drop len buf) = None \<Longrightarrow>
   fetch_keys_loop buf (Suc n) len (Some s) ctr =
   fetch_keys_loop buf n ((len + 2 ^ 32 - 1) mod 2 ^ 32) (Some s) (regsubkey_ctr_addkey ctr s)"
  by simp

lemma fetch_keys_loop_ok_step:
  "len \<le> length buf \<Longrightarrow> tdb_unpack_f (drop len buf) = Some (s, l) \<Longrightarrow>
   fetch_keys_loop buf (Suc n) len nm ctr =
   fetch_keys_loop buf n ((len + l) mod 2 ^ 32) (Some s) (regsubkey_ctr_addkey ctr s)"
  by simp

lemma tdb_unpack_f_NUL: "tdb_unpack_f [CHR 0x00] = Some ([], 1)"
  by (simp add: tdb_unpack_f_def sizeof_fstring_def)

lemma big_fetch_loop:
  "fetch_keys_loop (SIVAL 6 @ ''a'' @ [CHR 0x00] @ replicate 250 (CHR ''x'') @ ''b'' @ [CHR 0x00]) 6 4 None
     \<lparr>subkeys = [], subkeys_seqnum = s\<rparr> =
   Some \<lparr>subkeys = [''a'', replicate 250 (CHR ''x'') @ ''b'', []], subkeys_seqnum = s\<rparr>"
proof -
  let ?n2 = "replicate 250 (CHR ''x'') @ ''b''"
  let ?ks = "[''a'', ?n2]"
  let ?R = "SIVAL 6 @ concat (map (\<lambda>k. k @ [CHR 0x00]) ?ks) @ []"
  let ?c2 = "\<lparr>subkeys = ?ks, subkeys_seqnum = s\<rparr>"
  let ?c3 = "\<lparr>subkeys = [''a'', ?n2, []], subkeys_seqnum = s\<rparr>"
  have R: "SIVAL 6 @ ''a'' @ [CHR 0x00] @ replicate 250 (CHR ''x'') @ ''b'' @ [CHR 0x00] = ?R" by simp
  have len: "length ?R = 258" by simp
  have d8: "drop 258 ?R = []" by simp
  have d7: "drop 257 ?R = [CHR 0x00]" by simp
  have six: "(6::nat) = length ?ks + Suc (Suc (Suc (Suc 0)))" by simp
  have 1: "fetch_keys_loop ?R (length ?ks + Suc (Suc (Suc (Suc 0)))) (length (SIVAL 6)) None \<lparr>subkeys = [], subkeys_seqnum = s\<rparr> =
           fetch_keys_loop ?R (Suc (Suc (Suc (Suc 0)))) (length (SIVAL 6) + length (concat (map (\<lambda>k. k @ [CHR 0x00]) ?ks)))
             (if ?ks = [] then None else Some (last ?ks))
             (foldl regsubkey_ctr_addkey \<lparr>subkeys = [], subkeys_seqnum = s\<rparr> ?ks)"
    by (rule fetch_keys_loop_packed) auto
  have ne: "strupper_m ?n2 \<noteq> strupper_m ''a''"
  proof
    assume "strupper_m ?n2 = strupper_m ''a''"
    then have "length (strupper_m ?n2) = length (strupper_m ''a'')" by simp
    then show False by (simp add: strupper_m_def)
  qed
  have f: "foldl regsubkey_ctr_addkey \<lparr>subkeys = [], subkeys_seqnum = s\<rparr> ?ks = ?c2"
    using ne by (simp add: addkey_subkeys regsubkey_ctr_addkey_def regsubkey_ctr_key_exists_def key_exists_in_iff)
  have a2: "regsubkey_ctr_addkey ?c2 ?n2 = ?c2"
    by (rule addkey_existing) simp
  have a3: "regsubkey_ctr_addkey ?c2 [] = ?c3"
    by (simp add: regsubkey_ctr_addkey_def regsubkey_ctr_key_exists_def key_exists_in_iff strupper_m_def)
  have a4: "regsubkey_ctr_addkey ?c3 [] = ?c3"
    by (rule addkey_existing) simp
  have i1: "fetch_keys_loop ?R (Suc (Suc (Suc (Suc 0)))) 258 (Some ?n2) ?c2 =
            fetch_keys_loop ?R (Suc (Suc (Suc 0))) 257 (Some ?n2) ?c2"
    by (subst fetch_keys_loop_fail_step) (simp_all only: len d8 tdb_unpack_f_nil a2, simp_all)
  have i2: "fetch_keys_loop ?R (Suc (Suc (Suc 0))) 257 (Some ?n2) ?c2 =
            fetch_keys_loop ?R (Suc (Suc 0)) 258 (Some []) ?c3"
    by (subst fetch_keys_loop_ok_step[where s="[]" and l=1]) (simp_all only: len d7 tdb_unpack_f_NUL a3, simp_all)
  have i3: "fetch_keys_loop ?R (Suc (Suc 0)) 258 (Some []) ?c3 =
            fetch_keys_loop ?R (Suc 0) 257 (Some []) ?c3"
    by (subst fetch_keys_loop_fail_step) (simp_all only: len d8 tdb_unpack_f_nil a4, simp_all)
  have i4: "fetch_keys_loop ?R (Suc 0) 257 (Some []) ?c3 =
            fetch_keys_loop ?R 0 258 (Some []) ?c3"
    by (subst fetch_keys_loop_ok_step[where s="[]" and l=1]) (simp_all only: len d7 tdb_unpack_f_NUL a4, simp_all)
  have e: "length (SIVAL 6) + length (concat (map (\<lambda>k. k @ [CHR 0x00]) ?ks)) = 258" by simp
  have l2: "(if ?ks = [] then None else Some (last ?ks)) = Some ?n2" by simp
  define B where "B = ?R"
  have six: "fetch_keys_loop B 6 4 None \<lparr>subkeys = [], subkeys_seqnum = s\<rparr> =
             fetch_keys_loop B (length ?ks + Suc (Suc (Suc (Suc 0)))) (length (SIVAL 6)) None \<lparr>subkeys = [], subkeys_seqnum = s\<rparr>"
    by (simp add: eval_nat_numeral)
  have "fetch_keys_loop B 6 4 None \<lparr>subkeys = [], subkeys_seqnum = s\<rparr> = Some ?c3"
    unfolding six unfolding B_def 1 e f l2 i1 i2 i3 i4 by simp
  then show ?thesis unfolding R B_def .
qed

subsection \<open>Lock timeouts and absent records\<close>


lemma fetch_keys_timeout:
  "tdb_lock_timeout tdb (normalize_reg_path key) \<Longrightarrow> regdb_fetch_keys tdb key ctr = Some (0, ctr)"
  by (simp add: regdb_fetch_keys_def normalize_reg_path_def tdb_read_lock_bystring_with_timeout_def)

lemma fetch_values_timeout:
  "tdb_lock_timeout tdb (normalize_reg_path (REG_VALUE_PREFIX @ ''/'' @ key)) \<Longrightarrow>
   regdb_fetch_values tdb key vals = Some (0, vals)"
  by (simp add: regdb_fetch_values_def tdb_read_lock_bystring_with_timeout_def)

lemma fetch_values_absent:
  "\<not> tdb_lock_timeout tdb (normalize_reg_path (REG_VALUE_PREFIX @ ''/'' @ key)) \<Longrightarrow>
   tdb_records tdb (normalize_reg_path (REG_VALUE_PREFIX @ ''/'' @ key)) = None \<Longrightarrow>
   regdb_fetch_values tdb key vals = Some (0, vals\<lparr>values_seqnum := tdb_seqnum tdb\<rparr>)"
  by (simp add: regdb_fetch_values_def tdb_read_lock_bystring_with_timeout_def
      tdb_fetch_bystring_def regdb_get_seqnum_def tdb_get_seqnum_def)

text \<open>
  Claim C6, as amended. A fetch whose read lock times out returns 0 and hands the
  caller's container back untouched. \<^verbatim>\<open>regdb_fetch_values\<close> on an absent record returns 0
  as well, the container differing only in its sequence stamp; \<^verbatim>\<open>regdb_fetch_keys\<close> on an
  absent record returns -1.
\<close>

theorem fetch_lock_timeout:
  "(tdb_lock_timeout tdb (normalize_reg_path key) \<longrightarrow>
      regdb_fetch_keys tdb key ctr = Some (0, ctr)) \<and>
   (tdb_lock_timeout tdb (normalize_reg_path (REG_VALUE_PREFIX @ ''/'' @ key)) \<longrightarrow>
      regdb_fetch_values tdb key vals = Some (0, vals)) \<and>
   (\<not> tdb_lock_timeout tdb (normalize_reg_path key) \<and> tdb_records tdb (normalize_reg_path key) = None \<longrightarrow>
      regdb_fetch_keys tdb key ctr = Some (-1, ctr\<lparr>subkeys_seqnum := tdb_seqnum tdb\<rparr>)) \<and>
   (\<not> tdb_lock_timeout tdb (normalize_reg_path (REG_VALUE_PREFIX @ ''/'' @ key)) \<and>
    tdb_records tdb (normalize_reg_path (REG_VALUE_PREFIX @ ''/'' @ key)) = None \<longrightarrow>
      regdb_fetch_values tdb key vals = Some (0, vals\<lparr>values_seqnum := tdb_seqnum tdb\<rparr>))"
  using fetch_keys_timeout fetch_values_timeout fetch_keys_absent fetch_values_absent by blast

theorem fetch_lock_timeout_witness:
  "regdb_fetch_keys \<lparr>tdb_records = (\<lambda>k. None), tdb_seqnum = 7, tdb_transaction = None, tdb_lock_timeout = (\<lambda>k. True)\<rparr>
     ''HKLM'' regsubkey_ctr_zero = Some (0, regsubkey_ctr_zero) \<and>
   regdb_fetch_values \<lparr>tdb_records = (\<lambda>k. None), tdb_seqnum = 7, tdb_transaction = None, tdb_lock_timeout = (\<lambda>k. True)\<rparr>
     ''HKLM'' regval_ctr_zero = Some (0, regval_ctr_zero) \<and>
   regdb_fetch_keys \<lparr>tdb_records = (\<lambda>k. None), tdb_seqnum = 7, tdb_transaction = None, tdb_lock_timeout = (\<lambda>k. False)\<rparr>
     ''HKLM'' regsubkey_ctr_zero = Some (-1, \<lparr>subkeys = [], subkeys_seqnum = 7\<rparr>) \<and>
   regdb_fetch_values \<lparr>tdb_records = (\<lambda>k. None), tdb_seqnum = 7, tdb_transaction = None, tdb_lock_timeout = (\<lambda>k. False)\<rparr>
     ''HKLM'' regval_ctr_zero = Some (0, \<lparr>reg_values = [], values_seqnum = 7\<rparr>)"
  using fetch_lock_timeout[of "\<lparr>tdb_records = (\<lambda>k. None), tdb_seqnum = 7, tdb_transaction = None, tdb_lock_timeout = (\<lambda>k. True)\<rparr>"
          "''HKLM''" regsubkey_ctr_zero regval_ctr_zero]
        fetch_lock_timeout[of "\<lparr>tdb_records = (\<lambda>k. None), tdb_seqnum = 7, tdb_transaction = None, tdb_lock_timeout = (\<lambda>k. False)\<rparr>"
          "''HKLM''" regsubkey_ctr_zero regval_ctr_zero]
  by (simp add: regsubkey_ctr_zero_def regval_ctr_zero_def)

text \<open>
  For \<^verbatim>\<open>regdb_fetch_keys\<close> the two outcomes of the claim differ: 0 after a timeout, -1
  for a record that does not exist.
\<close>

theorem fetch_lock_timeout_counterexample:
  "regdb_fetch_keys \<lparr>tdb_records = (\<lambda>k. None), tdb_seqnum = 7, tdb_transaction = None, tdb_lock_timeout = (\<lambda>k. True)\<rparr>
     ''HKLM'' regsubkey_ctr_zero = Some (0, \<lparr>subkeys = [], subkeys_seqnum = 0\<rparr>) \<and>
   regdb_fetch_keys \<lparr>tdb_records = (\<lambda>k. None), tdb_seqnum = 7, tdb_transaction = None, tdb_lock_timeout = (\<lambda>k. False)\<rparr>
     ''HKLM'' regsubkey_ctr_zero = Some (-1, \<lparr>subkeys = [], subkeys_seqnum = 7\<rparr>) \<and>
   regdb_fetch_keys \<lparr>tdb_records = (\<lambda>k. None), tdb_seqnum = 7, tdb_transaction = None, tdb_lock_timeout = (\<lambda>k. True)\<rparr>
     ''HKLM'' regsubkey_ctr_zero \<noteq>
   regdb_fetch_keys \<lparr>tdb_records = (\<lambda>k. None), tdb_seqnum = 7, tdb_transaction = None, tdb_lock_timeout = (\<lambda>k. False)\<rparr>
     ''HKLM'' regsubkey_ctr_zero"
  by (simp add: fetch_keys_timeout fetch_keys_absent regsubkey_ctr_zero_def)


subsection \<open>Deleting a security descriptor\<close>

lemma trans_delete_ok:
  "trans_ok tdb \<Longrightarrow>
   tdb_trans_delete tdb k =
     (0, tdb\<lparr>tdb_records := (tdb_records tdb)(k := None),
             tdb_seqnum := (if tdb_transaction tdb = None then tdb_seqnum tdb + 1 else tdb_seqnum tdb)\<rparr>)"
  by (cases "tdb_transaction tdb")
     (auto simp: tdb_trans_delete_def tdb_transaction_start_def tdb_delete_bystring_def tdb_bump_def
        tdb_transaction_commit_def trans_ok_def)

lemma trans_store_ok:
  "trans_ok tdb \<Longrightarrow>
   tdb_trans_store_bystring tdb k d =
     (0, tdb\<lparr>tdb_records := (tdb_records tdb)(k := Some d),
             tdb_seqnum := (if tdb_transaction tdb = None then tdb_seqnum tdb + 1 else tdb_seqnum tdb)\<rparr>)"
  by (cases "tdb_transaction tdb")
     (auto simp: tdb_trans_store_bystring_def tdb_transaction_start_def tdb_store_bystring_def tdb_bump_def
        tdb_transaction_commit_def trans_ok_def)

lemma set_secdesc_null:
  assumes "trans_ok tdb"
  shows "fst (regdb_set_secdesc marshall_sec_desc tdb key None) = WERR_OK \<and>
         tdb_records (snd (regdb_set_secdesc marshall_sec_desc tdb key None))
           (normalize_dbkey (REG_SECDESC_PREFIX @ ''/'' @ key)) = None \<and>
         regdb_get_secdesc unmarshall_sec_desc (snd (regdb_set_secdesc marshall_sec_desc tdb key None)) key =
           (WERR_BADFILE, None)"
  using assms
  by (simp add: regdb_set_secdesc_def regdb_get_secdesc_def trans_delete_ok tdb_fetch_bystring_def Let_def)

lemma set_secdesc_trans_ok:
  "trans_ok tdb \<Longrightarrow> trans_ok (snd (regdb_set_secdesc marshall_sec_desc tdb key sd))"
  by (auto simp: regdb_set_secdesc_def trans_delete_ok trans_store_ok Let_def trans_ok_def
      split: option.splits sum.splits)

text \<open>
  Claim C8. On a store whose transaction (if any) has not been spoiled,
  \<^verbatim>\<open>regdb_set_secdesc\<close> with a null descriptor returns \<^verbatim>\<open>WERR_OK\<close> whether or not a
  record exists, and leaves no record under the descriptor key; after setting a
  descriptor and then null, \<^verbatim>\<open>regdb_get_secdesc\<close> returns \<^verbatim>\<open>WERR_BADFILE\<close>.
\<close>

theorem set_secdesc_null_deletes:
  assumes "trans_ok tdb"
  shows "fst (regdb_set_secdesc marshall_sec_desc tdb key None) = WERR_OK \<and>
         tdb_records (snd (regdb_set_secdesc marshall_sec_desc tdb key None))
           (normalize_dbkey (REG_SECDESC_PREFIX @ ''/'' @ key)) = None \<and>
         fst (regdb_set_secdesc marshall_sec_desc
                (snd (regdb_set_secdesc marshall_sec_desc tdb key (Some secdesc))) key None) = WERR_OK \<and>
         regdb_get_secdesc unmarshall_sec_desc
           (snd (regdb_set_secdesc marshall_sec_desc
                  (snd (regdb_set_secdesc marshall_sec_desc tdb key (Some secdesc))) key None)) key =
           (WERR_BADFILE, None)"
proof -
  note a = set_secdesc_null[OF assms, of marshall_sec_desc key unmarshall_sec_desc]
  note b = set_secdesc_null[OF set_secdesc_trans_ok[OF assms, of marshall_sec_desc key "Some secdesc"],
              of marshall_sec_desc key unmarshall_sec_desc]
  from a b show ?thesis by blast
qed

theorem set_secdesc_null_deletes_witness:
  "trans_ok \<lparr>tdb_records = (\<lambda>k. None), tdb_seqnum = 0, tdb_transaction = None, tdb_lock_timeout = (\<lambda>k. False)\<rparr> \<and>
   fst (regdb_set_secdesc (\<lambda>sd. Inr sd)
          \<lparr>tdb_records = (\<lambda>k. None), tdb_seqnum = 0, tdb_transaction = None, tdb_lock_timeout = (\<lambda>k. False)\<rparr>
          ''HKLM'' None) = WERR_OK \<and>
   regdb_get_secdesc (\<lambda>bytes. Inr bytes)
     (snd (regdb_set_secdesc (\<lambda>sd. Inr sd)
       (snd (regdb_set_secdesc (\<lambda>sd. Inr sd)
          \<lparr>tdb_records = (\<lambda>k. None), tdb_seqnum = 0, tdb_transaction = None, tdb_lock_timeout = (\<lambda>k. False)\<rparr>
          ''HKLM'' (Some ''descriptor''))) ''HKLM'' None)) ''HKLM'' = (WERR_BADFILE, None) \<and>
   tdb_records (snd (regdb_set_secdesc (\<lambda>sd. Inr sd)
          \<lparr>tdb_records = (\<lambda>k. None), tdb_seqnum = 0, tdb_transaction = None, tdb_lock_timeout = (\<lambda>k. False)\<rparr>
          ''HKLM'' (Some ''descriptor''))) ''REG_SECDESC/HKLM'' = Some ''descriptor''"
proof -
  let ?t = "\<lparr>tdb_records = (\<lambda>k. None), tdb_seqnum = 0, tdb_transaction = None, tdb_lock_timeout = (\<lambda>k. False)\<rparr>"
  have ok: "trans_ok ?t" by (simp add: trans_ok_def)
  have st: "tdb_records (snd (regdb_set_secdesc (\<lambda>sd. Inr sd) ?t ''HKLM'' (Some ''descriptor''))) ''REG_SECDESC/HKLM'' = Some ''descriptor''"
    by (simp add: regdb_set_secdesc_def trans_store_ok[OF ok] eval_path)
  show ?thesis
    using ok st set_secdesc_null_deletes[OF ok, of "\<lambda>sd. Inr sd" "''HKLM''" "''descriptor''" "\<lambda>bytes. Inr bytes"]
    by simp
qed

subsection \<open>A subkey list larger than the initial buffer\<close>

lemma norm_HKLM: "normalize_reg_path ''HKLM'' = ''HKLM''"
  by (simp add: eval_path)

text \<open>
  Claim C4 at a list of six de-duplicated names, each shorter than an \<^verbatim>\<open>fstring\<close>, whose
  packed form needs 1032 bytes: \<^verbatim>\<open>regdb_store_keys\<close> on an empty store returns true, and
  the following \<^verbatim>\<open>regdb_fetch_keys\<close> returns the count 6 with three names, only the first
  of which was stored.
\<close>

theorem store_fetch_beyond_buffer:
  "map_option (\<lambda>(ok, tdb'). (ok, regdb_fetch_keys tdb' ''HKLM'' regsubkey_ctr_zero))
     (regdb_store_keys
        \<lparr>tdb_records = (\<lambda>k. None), tdb_seqnum = 0, tdb_transaction = None, tdb_lock_timeout = (\<lambda>k. False)\<rparr>
        ''HKLM''
        \<lparr>subkeys = [''a'', replicate 254 (CHR ''x'') @ ''1'', replicate 254 (CHR ''x'') @ ''2'',
                     replicate 254 (CHR ''x'') @ ''3'', replicate 254 (CHR ''x'') @ ''4'', ''b''],
         subkeys_seqnum = 0\<rparr>) =
   Some (True, Some (6, \<lparr>subkeys = [''a'', replicate 250 (CHR ''x'') @ ''b'', []], subkeys_seqnum = 1\<rparr>))"
proof -
  let ?t = "\<lparr>tdb_records = (\<lambda>k. None), tdb_seqnum = 0, tdb_transaction = None, tdb_lock_timeout = (\<lambda>k. False)\<rparr>"
  let ?L = "[''a'', replicate 254 (CHR ''x'') @ ''1'', replicate 254 (CHR ''x'') @ ''2'',
                     replicate 254 (CHR ''x'') @ ''3'', replicate 254 (CHR ''x'') @ ''4'', ''b'']"
  let ?c = "\<lparr>subkeys = ?L, subkeys_seqnum = 0\<rparr>"
  define rec where "rec = SIVAL 6 @ ''a'' @ [CHR 0x00] @ replicate 250 (CHR ''x'') @ ''b'' @ [CHR 0x00]"
  have f0: "regdb_fetch_keys ?t ''HKLM'' regsubkey_ctr_zero = Some (-1, regsubkey_ctr_zero\<lparr>subkeys_seqnum := tdb_seqnum ?t\<rparr>)"
    by (rule fetch_keys_absent) simp_all
  have si: "regdb_store_keys_internal t ''HKLM'' ?c =
              Some (True, t\<lparr>tdb_records := (tdb_records t)(normalize_reg_path ''HKLM'' := Some rec)\<rparr>)"
    if tr: "tdb_transaction t \<noteq> None" for t
  proof -
    obtain buf len where lp0: "store_keys_pack_loop (map Some (SIVAL 6) @ replicate 1020 None) 1024 4 ?L = (buf, len)"
      by (cases "store_keys_pack_loop (map Some (SIVAL 6) @ replicate 1020 None) 1024 4 ?L") blast
    have lp: "store_keys_pack_loop (map Some (SIVAL (length (subkeys ?c))) @ replicate 1020 None) 1024 4 (subkeys ?c) = (buf, len)"
    proof -
      have len6: "length (subkeys ?c) = 6" by simp
      have sk: "subkeys ?c = ?L" by simp
      show ?thesis unfolding len6 unfolding sk by (rule lp0)
    qed
    have db: "defined_bytes (take len buf) = Some rec"
      unfolding rec_def using lp0 by (rule big_pack)
    show ?thesis
      using regdb_store_keys_internal_rec[OF lp db, of t "''HKLM''"] tr by (simp add: tdb_bump_in_trans)
  qed
  note m = regdb_store_keys_slow_gen[OF _ _ f0, of ?c rec, OF _ _ _ si]
  have r: "regdb_store_keys ?t ''HKLM'' ?c =
     Some (True, ?t\<lparr>tdb_records :=
      (\<lambda>k. if k = normalize_reg_path ''HKLM'' then Some rec
            else if \<exists>n\<in>set (subkeys ?c). k = normalize_reg_path (''HKLM'' @ ''/'' @ n) then
              (if (\<exists>oldkeyname\<in>set (subkeys (regsubkey_ctr_zero\<lparr>subkeys_seqnum := tdb_seqnum ?t\<rparr>)). \<not> regsubkey_ctr_key_exists ?c oldkeyname \<and>
                       (k = normalize_reg_path (''HKLM'' @ ''/'' @ oldkeyname) \<or>
                        k = normalize_reg_path (REG_VALUE_PREFIX @ ''/'' @ ''HKLM'' @ ''/'' @ oldkeyname))) \<or>
                  tdb_records ?t k = None
               then Some (pack_subkeys []) else tdb_records ?t k)
            else if \<exists>oldkeyname\<in>set (subkeys (regsubkey_ctr_zero\<lparr>subkeys_seqnum := tdb_seqnum ?t\<rparr>)). \<not> regsubkey_ctr_key_exists ?c oldkeyname \<and>
                       (k = normalize_reg_path (''HKLM'' @ ''/'' @ oldkeyname) \<or>
                        k = normalize_reg_path (REG_VALUE_PREFIX @ ''/'' @ ''HKLM'' @ ''/'' @ oldkeyname))
            then None else tdb_records ?t k),
      tdb_seqnum := (if tdb_transaction ?t = None then tdb_seqnum ?t + 1 else tdb_seqnum ?t)\<rparr>)"
    by (rule m) (simp_all add: trans_ok_def regsubkey_ctr_zero_def)
  have u: "tdb_unpack_d rec = Some (6, 4)"
    unfolding rec_def by (rule tdb_unpack_d_SIVAL) simp
  have fl: "fetch_keys_loop rec 6 4 None \<lparr>subkeys = [], subkeys_seqnum = 1\<rparr> =
            Some \<lparr>subkeys = [''a'', replicate 250 (CHR ''x'') @ ''b'', []], subkeys_seqnum = 1\<rparr>"
    unfolding rec_def by (rule big_fetch_loop)
  show ?thesis
    unfolding r
    by (simp add: regdb_fetch_keys_def normalize_reg_path_def[symmetric] norm_HKLM
        tdb_read_lock_bystring_with_timeout_def tdb_fetch_bystring_def regdb_get_seqnum_def tdb_get_seqnum_def
        u fl regsubkey_ctr_zero_def int_of_uint32_def Let_def del: fetch_keys_loop.simps)
qed

subsection \<open>Removing a child: what \<^verbatim>\<open>regdb_store_keys\<close> deletes and what it leaves\<close>





lemma normalize_slash_Cons: "normalize_reg_path (CHR ''/'' # s) = CHR ''/'' # normalize_reg_path s"
  by (simp add: normalize_reg_path_def strupper_m_def string_sub_backslash_def toupper_ascii_def)

lemma child_path: "normalize_reg_path (key @ CHR ''/'' # n) = normalize_reg_path key @ CHR ''/'' # normalize_reg_path n"
  by (simp add: normalize_append normalize_slash_Cons)

lemma norm_REG_VALUES: "normalize_reg_path REG_VALUE_PREFIX = ''REG_VALUES''"
  by (simp add: eval_path)

lemma value_path:
  "normalize_reg_path (REG_VALUE_PREFIX @ CHR ''/'' # key @ CHR ''/'' # n) =
   (''REG_VALUES/'' @ normalize_reg_path key) @ CHR ''/'' # normalize_reg_path n"
  by (simp add: normalize_append norm_REG_VALUES normalize_slash_Cons)

lemma child_eq_child:
  "normalize_reg_path (key @ ''/'' @ n) = normalize_reg_path (key @ ''/'' @ m) \<longleftrightarrow>
   normalize_reg_path n = normalize_reg_path m"
  by (simp add: child_path)









































subsection \<open>The fast path of \<^verbatim>\<open>regdb_store_keys\<close>\<close>










subsection \<open>Value lists: packing, storing and reading back\<close>

lemma memcpy_at_nil [simp]: "memcpy_at buf off [] = buf"
  by (simp add: memcpy_at_def)

lemma memcpy_at_memcpy_at:
  "off + length a \<le> length buf \<Longrightarrow>
   memcpy_at (memcpy_at buf off a) (off + length a) b = memcpy_at buf off (a @ b)"
proof -
  assume le: "off + length a \<le> length buf"
  let ?m = "take off buf @ map Some a @ drop (off + length a) buf"
  have l1: "length (take off buf @ map Some a) = off + length a" using le by simp
  have t: "take (off + length a) ?m = take off buf @ map Some a"
    using l1 by (metis append.assoc append_eq_conv_conj)
  have d: "drop (off + length a + length b) ?m = drop (off + length (a @ b)) buf"
  proof -
    have "drop (off + length a + length b) ((take off buf @ map Some a) @ drop (off + length a) buf) =
          drop (length b) (drop (off + length a) buf)"
      using l1 by (metis add.commute append_eq_conv_conj drop_drop)
    moreover have "drop (length b) (drop (off + length a) buf) = drop (off + length (a @ b)) buf"
      by (simp add: ac_simps)
    ultimately show ?thesis by (simp only: append_assoc)
  qed
  show ?thesis
    unfolding memcpy_at_def t d by simp
qed

lemma length_memcpy_at: "off + length a \<le> length buf \<Longrightarrow> length (memcpy_at buf off a) = length buf"
  by (simp add: memcpy_at_def)

lemma pack_bytes_nonempty: "0 < length (pack_bytes a)"
  by (cases a) auto

lemma tdb_pack_fits:
  "int (length (concat (map pack_bytes as))) \<le> bufsize \<Longrightarrow>
   off + length (concat (map pack_bytes as)) \<le> length buf \<Longrightarrow>
   tdb_pack buf off bufsize as =
     (memcpy_at buf off (concat (map pack_bytes as)), int (length (concat (map pack_bytes as))))"
proof (induction as arbitrary: buf off bufsize)
  case Nil
  then show ?case by simp
next
  case (Cons a as)
  let ?b = "pack_bytes a"
  let ?r = "concat (map pack_bytes as)"
  have pos: "0 < length ?b" by (rule pack_bytes_nonempty)
  have le: "int (length ?b) + int (length ?r) \<le> bufsize" using Cons.prems(1) by simp
  have fits: "pack_fits a bufsize (length ?b)"
    using le pos by (cases a) auto
  have bs: "bufsize \<noteq> 0" using le pos by linarith
  have nn: "\<not> bufsize - int (length ?b) < 0" using le by linarith
  have ih: "tdb_pack (memcpy_at buf off ?b) (off + length ?b) (bufsize - int (length ?b)) as =
            (memcpy_at (memcpy_at buf off ?b) (off + length ?b) ?r, int (length ?r))"
    using Cons.prems le by (intro Cons.IH) (simp_all add: length_memcpy_at)
  have mm: "memcpy_at (memcpy_at buf off ?b) (off + length ?b) ?r = memcpy_at buf off (?b @ ?r)"
    using Cons.prems(2) by (intro memcpy_at_memcpy_at) simp
  show ?case
    using fits bs nn by (simp add: Let_def ih mm)
qed

lemma tdb_pack_nowrite:
  "bufsize \<le> 0 \<Longrightarrow> tdb_pack buf off bufsize as = (buf, int (length (concat (map pack_bytes as))))"
proof (induction as arbitrary: off bufsize)
  case Nil
  then show ?case by simp
next
  case (Cons a as)
  have pos: "0 < length (pack_bytes a)" by (rule pack_bytes_nonempty)
  have nf: "\<not> pack_fits a bufsize (length (pack_bytes a))"
    using Cons.prems pos by (cases a) auto
  have b2: "(if (if bufsize \<noteq> 0 then bufsize - int (length (pack_bytes a)) else bufsize) < 0 then 0
             else (if bufsize \<noteq> 0 then bufsize - int (length (pack_bytes a)) else bufsize)) \<le> 0"
    using Cons.prems by simp
  show ?case
    using nf Cons.IH[OF b2] by (simp add: Let_def)
qed

lemma pack_value_bytes:
  "concat (map pack_bytes [Pack_f (regval_name v), Pack_d (regval_type v), Pack_B (regval_data_p v)]) = pack_value v"
  by (simp add: pack_value_def regval_name_def regval_type_def regval_data_p_def)

lemma pack_values_loop_nowrite:
  "0 \<le> len \<Longrightarrow> pack_values_loop [] 0 len vs = ([], len + int (length (concat (map pack_value vs))))"
proof (induction vs arbitrary: len)
  case Nil
  then show ?case by simp
next
  case (Cons v vs)
  have p: "tdb_pack [] (nat len) (0 - len)
             [Pack_f (regval_name v), Pack_d (regval_type v), Pack_B (regval_data_p v)] =
           ([], int (length (pack_value v)))"
    using Cons.prems tdb_pack_nowrite[of "0 - len" "[]" "nat len"
        "[Pack_f (regval_name v), Pack_d (regval_type v), Pack_B (regval_data_p v)]"]
    unfolding pack_value_bytes by simp
  have "pack_values_loop [] 0 (len + int (length (pack_value v))) vs =
        ([], (len + int (length (pack_value v))) + int (length (concat (map pack_value vs))))"
    using Cons.prems by (intro Cons.IH) simp
  then show ?case
    unfolding pack_values_loop.simps p prod.case by simp
qed

lemma pack_values_loop_fits:
  "length (concat (map pack_value vs)) \<le> n \<Longrightarrow>
   pack_values_loop (map Some pre @ replicate n None) (int (length pre + n)) (int (length pre)) vs =
     (map Some (pre @ concat (map pack_value vs)) @ replicate (n - length (concat (map pack_value vs))) None,
      int (length pre + length (concat (map pack_value vs))))"
proof (induction vs arbitrary: pre n)
  case Nil
  then show ?case by simp
next
  case (Cons v vs)
  let ?e = "pack_value v"
  let ?body = "concat (map pack_value vs)"
  let ?n' = "n - length ?e"
  have fit: "length ?e + length ?body \<le> n" using Cons.prems by simp
  have p: "tdb_pack (map Some pre @ replicate n None) (nat (int (length pre))) (int (length pre + n) - int (length pre))
             [Pack_f (regval_name v), Pack_d (regval_type v), Pack_B (regval_data_p v)] =
           (map Some (pre @ ?e) @ replicate ?n' None, int (length ?e))"
  proof -
    have "tdb_pack (map Some pre @ replicate n None) (length pre) (int n)
             [Pack_f (regval_name v), Pack_d (regval_type v), Pack_B (regval_data_p v)] =
          (memcpy_at (map Some pre @ replicate n None) (length pre) ?e, int (length ?e))"
      using fit tdb_pack_fits[of "[Pack_f (regval_name v), Pack_d (regval_type v), Pack_B (regval_data_p v)]"
          "int n" "length pre" "map Some pre @ replicate n None"]
      unfolding pack_value_bytes by simp
    moreover have "memcpy_at (map Some pre @ replicate n None) (length pre) ?e =
                   map Some (pre @ ?e) @ replicate ?n' None"
      using fit by (intro memcpy_at_end) simp
    ultimately show ?thesis by simp
  qed
  have s3: "int (length pre + n) = int (length (pre @ ?e) + ?n')" using fit by simp
  have s4: "int (length pre) + int (length ?e) = int (length (pre @ ?e))" by simp
  have ih: "pack_values_loop (map Some (pre @ ?e) @ replicate ?n' None) (int (length (pre @ ?e) + ?n')) (int (length (pre @ ?e))) vs =
     (map Some ((pre @ ?e) @ ?body) @ replicate (?n' - length ?body) None,
      int (length (pre @ ?e) + length ?body))"
    using fit by (intro Cons.IH) simp
  have "pack_values_loop (map Some pre @ replicate n None) (int (length pre + n)) (int (length pre)) (v # vs) =
     (map Some ((pre @ ?e) @ ?body) @ replicate (?n' - length ?body) None,
      int (length (pre @ ?e) + length ?body))"
    unfolding pack_values_loop.simps p prod.case s4 unfolding s3 by (rule ih)
  then show ?case by (simp add: add.assoc)
qed

lemma regdb_pack_values_size:
  "regdb_pack_values vals [] 0 = ([], int (length (pack_values (reg_values vals))))"
proof -
  have p: "tdb_pack [] 0 (0 - 0) [Pack_d (regval_ctr_numvals vals)] = ([], 4)"
    using tdb_pack_nowrite[of 0 "[]" 0 "[Pack_d (regval_ctr_numvals vals)]"] by simp
  show ?thesis
    unfolding regdb_pack_values_def Let_def p prod.case
    using pack_values_loop_nowrite[of "0 + 4" "reg_values vals"]
    by (simp add: pack_values_def)
qed

lemma regdb_pack_values_fill:
  "regdb_pack_values vals (replicate (length (pack_values (reg_values vals))) None)
     (int (length (pack_values (reg_values vals)))) =
   (map Some (pack_values (reg_values vals)), int (length (pack_values (reg_values vals))))"
proof -
  let ?vs = "reg_values vals"
  let ?body = "concat (map pack_value ?vs)"
  let ?n = "length (pack_values ?vs)"
  have n: "?n = 4 + length ?body" by (simp add: pack_values_def)
  have p: "tdb_pack (replicate ?n None) 0 (int ?n - 0) [Pack_d (regval_ctr_numvals vals)] =
           (map Some (SIVAL (length ?vs)) @ replicate (length ?body) None, 4)"
    using tdb_pack_d_fits[of "int ?n" "replicate ?n None" 0 "length ?vs"]
      memcpy_at_end[of "SIVAL (length ?vs)" ?n "[]"]
    by (simp add: n regval_ctr_numvals_def)
  have l: "pack_values_loop (map Some (SIVAL (length ?vs)) @ replicate (length ?body) None)
             (int (length (SIVAL (length ?vs)) + length ?body)) (int (length (SIVAL (length ?vs)))) ?vs =
           (map Some (SIVAL (length ?vs) @ ?body) @ replicate (length ?body - length ?body) None,
            int (length (SIVAL (length ?vs)) + length ?body))"
    by (rule pack_values_loop_fits) simp
  have i: "int ?n = int (length (SIVAL (length ?vs)) + length ?body)" by (simp add: n)
  have z: "0 + (4::int) = int (length (SIVAL (length ?vs)))" by simp
  show ?thesis
    unfolding regdb_pack_values_def Let_def p prod.case
    unfolding i z l
    by (simp add: pack_values_def)
qed

lemma regdb_store_values_result:
  assumes "trans_ok tdb"
  shows "\<exists>tdb'. regdb_store_values tdb key vals = Some (True, tdb') \<and>
           tdb_records tdb' (normalize_reg_path (REG_VALUE_PREFIX @ ''/'' @ key)) =
             Some (pack_values (reg_values vals)) \<and>
           (\<forall>k. k \<noteq> normalize_reg_path (REG_VALUE_PREFIX @ ''/'' @ key) \<longrightarrow>
                tdb_records tdb' k = tdb_records tdb k) \<and>
           tdb_lock_timeout tdb' = tdb_lock_timeout tdb \<and>
           tdb_transaction tdb' = tdb_transaction tdb \<and>
           (tdb_records tdb (normalize_reg_path (REG_VALUE_PREFIX @ ''/'' @ key)) =
              Some (pack_values (reg_values vals)) \<longrightarrow> tdb' = tdb)"
proof -
  let ?rec = "pack_values (reg_values vals)"
  let ?k = "normalize_reg_path (REG_VALUE_PREFIX @ ''/'' @ key)"
  have pos: "\<not> int (length ?rec) \<le> 0" by (simp add: pack_values_def)
  have nn: "nat (int (length ?rec)) = length ?rec" by simp
  show ?thesis
  proof (cases "tdb_records tdb ?k = Some ?rec")
    case True
    have "regdb_store_values tdb key vals = Some (True, tdb)"
      unfolding regdb_store_values_def regdb_pack_values_size prod.case nn
      using pos True
      by (simp add: regdb_pack_values_fill tdb_fetch_bystring_def Let_def)
    then show ?thesis using True by simp
  next
    case False
    have "regdb_store_values tdb key vals =
            Some (True, tdb\<lparr>tdb_records := (tdb_records tdb)(?k := Some ?rec),
                     tdb_seqnum := (if tdb_transaction tdb = None then tdb_seqnum tdb + 1 else tdb_seqnum tdb)\<rparr>)"
      unfolding regdb_store_values_def regdb_pack_values_size prod.case nn
      using pos False
      by (simp add: regdb_pack_values_fill tdb_fetch_bystring_def Let_def trans_store_ok[OF assms])
    then show ?thesis using False by simp
  qed
qed

lemma tdb_unpack_fdB_packed:
  assumes "value_ok v"
  shows "tdb_unpack_fdB (pack_value v @ rest) =
           (int (length (pack_value v)), valuename v, val_type v, length (data_p v),
            if data_p v = [] then None else Some (data_p v))"
proof -
  let ?n = "valuename v"
  let ?r1 = "SIVAL (val_type v) @ SIVAL (length (data_p v)) @ data_p v @ rest"
  let ?r2 = "SIVAL (length (data_p v)) @ data_p v @ rest"
  have ok: "CHR 0x00 \<notin> set ?n" "length ?n < 256" "val_type v < 2 ^ 32" "length (data_p v) < 2 ^ 32"
    using assms by (simp_all add: value_ok_def)
  have pv: "pack_value v @ rest = ?n @ CHR 0x00 # ?r1" by (simp add: pack_value_def)
  have f: "tdb_unpack_f (?n @ CHR 0x00 # ?r1) = Some (?n, length ?n + 1)"
    using ok(1,2) by (rule tdb_unpack_f_packed)
  have d1: "drop (length ?n + 1) (?n @ CHR 0x00 # ?r1) = SIVAL (val_type v) @ ?r2" by simp
  have d: "tdb_unpack_d (SIVAL (val_type v) @ ?r2) = Some (val_type v, 4)"
    using ok(3) by (rule tdb_unpack_d_SIVAL)
  have d2: "drop (length ?n + 1 + 4) (?n @ CHR 0x00 # ?r1) = SIVAL (length (data_p v)) @ data_p v @ rest"
    by simp
  have b: "tdb_unpack_B (SIVAL (length (data_p v)) @ data_p v @ rest) =
           (Some (length (data_p v)), (if data_p v = [] then None else Some (data_p v)), Some (4 + length (data_p v)))"
    using ok(4) by (rule tdb_unpack_B_packed)
  have l: "int (length ?n + 1 + 4 + (4 + length (data_p v))) = int (length (pack_value v))"
    by (simp add: pack_value_def)
  show ?thesis
    unfolding pv tdb_unpack_fdB_def f option.case prod.case d1 d d2 b l by simp
qed

lemma tdb_unpack_fdB_nil: "tdb_unpack_fdB [] = (-1, [], REG_NONE, 0, None)"
  by (simp add: tdb_unpack_fdB_def)

lemma unpack_values_loop_packed:
  assumes "\<forall>v\<in>set vs. value_ok v"
  shows "unpack_values_loop (pre @ concat (map pack_value vs) @ post) (length vs + m) (int (length pre)) c =
         unpack_values_loop (pre @ concat (map pack_value vs) @ post) m
           (int (length pre + length (concat (map pack_value vs)))) (foldl unpack_step c vs)"
  using assms
proof (induction vs arbitrary: pre c)
  case Nil
  then show ?case by simp
next
  case (Cons v vs)
  let ?e = "pack_value v"
  let ?body = "concat (map pack_value vs)"
  let ?buf = "pre @ concat (map pack_value (v # vs)) @ post"
  have buf: "?buf = (pre @ ?e) @ ?body @ post" by simp
  have ok: "value_ok v" using Cons.prems by simp
  have dr: "drop (nat (int (length pre))) ?buf = ?e @ (?body @ post)" by simp
  have un: "tdb_unpack_fdB (drop (nat (int (length pre))) ?buf) =
           (int (length ?e), valuename v, val_type v, length (data_p v),
            if data_p v = [] then None else Some (data_p v))"
    unfolding dr using ok by (rule tdb_unpack_fdB_packed)
  have rng: "\<not> (int (length pre) < 0 \<or> int (length pre) > int (length ?buf))" by simp
  have st: "(case (if data_p v = [] then None else Some (data_p v)) of
               None \<Rightarrow> c
             | Some dat \<Rightarrow> if valuename v \<noteq> [] \<and> length (data_p v) \<noteq> 0
                            then regval_ctr_addvalue c (valuename v) (val_type v) dat (length (data_p v)) else c) =
            unpack_step c v"
    by (simp add: unpack_step_def unpack_keep_def)
  have step: "unpack_values_loop ?buf (length (v # vs) + m) (int (length pre)) c =
        unpack_values_loop ?buf (length vs + m) (int (length (pre @ ?e))) (unpack_step c v)"
    using rng by (simp only: length_Cons add_Suc unpack_values_loop.simps un prod.case Let_def st if_False)
       simp
  have ih: "unpack_values_loop ((pre @ ?e) @ ?body @ post) (length vs + m) (int (length (pre @ ?e))) (unpack_step c v) =
         unpack_values_loop ((pre @ ?e) @ ?body @ post) m (int (length (pre @ ?e) + length ?body))
           (foldl unpack_step (unpack_step c v) vs)"
    using Cons.prems by (intro Cons.IH) auto
  show ?case
    unfolding step unfolding buf ih by (simp add: add.assoc)
qed

lemma delvalue_in_absent:
  "strupper_m name \<notin> (strupper_m \<circ> valuename) ` set vs \<Longrightarrow> regval_ctr_delvalue_in vs name = vs"
  by (induction vs) (auto simp: strequal_def)

lemma foldl_unpack_step_seqnum [simp]:
  "values_seqnum (foldl unpack_step c vs) = values_seqnum c"
  by (induction vs arbitrary: c) (auto simp: unpack_step_def regval_ctr_addvalue_def)

lemma foldl_unpack_step_distinct:
  "distinct (map (strupper_m \<circ> valuename) (reg_values c @ vs)) \<Longrightarrow>
   reg_values (foldl unpack_step c vs) = reg_values c @ filter unpack_keep vs"
proof (induction vs arbitrary: c)
  case Nil
  then show ?case by simp
next
  case (Cons v vs)
  show ?case
  proof (cases "unpack_keep v")
    case True
    have nv: "strupper_m (valuename v) \<notin> (strupper_m \<circ> valuename) ` set (reg_values c)"
      using Cons.prems by auto
    have vv: "\<lparr>valuename = valuename v, val_type = val_type v, data_p = data_p v\<rparr> = v" by simp
    have a: "reg_values (unpack_step c v) = reg_values c @ [v]"
      using True by (simp add: unpack_step_def regval_ctr_addvalue_def delvalue_in_absent[OF nv] vv)
    have "distinct (map (strupper_m \<circ> valuename) (reg_values (unpack_step c v) @ vs))"
      using Cons.prems by (auto simp: a comp_def)
    from Cons.IH[OF this] show ?thesis using True by (simp add: a)
  next
    case False
    then have a: "unpack_step c v = c" by (simp add: unpack_step_def)
    have "distinct (map (strupper_m \<circ> valuename) (reg_values c @ vs))"
      using Cons.prems by (auto simp: comp_def)
    from Cons.IH[OF this] show ?thesis using False by (simp add: a)
  qed
qed

lemma length_pack_values_ge: "length vs \<le> length (concat (map pack_value vs))"
  by (induction vs) (auto simp: pack_value_def)

lemma fetch_values_packed_gen:
  assumes lock: "\<not> tdb_lock_timeout tdb (normalize_reg_path (REG_VALUE_PREFIX @ ''/'' @ key))"
    and rec: "tdb_records tdb (normalize_reg_path (REG_VALUE_PREFIX @ ''/'' @ key)) =
                Some (SIVAL (length vs + m) @ concat (map pack_value vs))"
    and m: "m = 0 \<or> m = 1"
    and ok: "\<forall>v\<in>set vs. value_ok v"
    and len: "length vs + m < 2 ^ 32"
    and dist: "distinct (map (strupper_m \<circ> valuename) vs)"
  shows "regdb_fetch_values tdb key regval_ctr_zero =
           Some (int (length (filter unpack_keep vs)),
                 \<lparr>reg_values = filter unpack_keep vs, values_seqnum = tdb_seqnum tdb\<rparr>)"
proof -
  let ?body = "concat (map pack_value vs)"
  let ?buf = "SIVAL (length vs + m) @ ?body @ []"
  let ?c = "regval_ctr_zero\<lparr>values_seqnum := regdb_get_seqnum tdb\<rparr>"
  have u: "tdb_unpack_d (SIVAL (length vs + m) @ ?body) = Some (length vs + m, 4)"
    using len by (rule tdb_unpack_d_SIVAL)
  have lp: "unpack_values_loop ?buf (length vs + m) (int (length (SIVAL (length vs + m)))) ?c =
            unpack_values_loop ?buf m (int (length (SIVAL (length vs + m)) + length ?body)) (foldl unpack_step ?c vs)"
    using ok by (rule unpack_values_loop_packed)
  have fin: "\<exists>l. unpack_values_loop ?buf m (int (length (SIVAL (length vs + m)) + length ?body)) (foldl unpack_step ?c vs) =
             Some (l, foldl unpack_step ?c vs)"
    using m by (auto simp: tdb_unpack_fdB_nil)
  then obtain l where l: "unpack_values_loop (SIVAL (length vs + m) @ ?body) (length vs + m) 4 ?c = Some (l, foldl unpack_step ?c vs)"
    using lp by auto
  have "distinct (map (strupper_m \<circ> valuename) (reg_values ?c @ vs))"
    using dist by (simp add: regval_ctr_zero_def)
  from foldl_unpack_step_distinct[OF this]
  have r: "foldl unpack_step ?c vs = \<lparr>reg_values = filter unpack_keep vs, values_seqnum = tdb_seqnum tdb\<rparr>"
    by (intro regval_ctr.equality) (simp_all add: regval_ctr_zero_def regdb_get_seqnum_def tdb_get_seqnum_def)
  show ?thesis
    using lock rec
    by (simp add: regdb_fetch_values_def tdb_read_lock_bystring_with_timeout_def tdb_fetch_bystring_def
        regdb_unpack_values_def u l r regval_ctr_numvals_def Let_def)
qed

lemma delvalue_in_subset: "set (regval_ctr_delvalue_in vs name) \<subseteq> set vs"
  by (induction vs) auto

lemma tdb_unpack_fdB_payload:
  assumes "tdb_unpack_fdB bs = (r, name, type, sz, Some dat)"
  shows "length dat = sz \<and> sz \<noteq> 0"
  using assms
  by (auto simp: tdb_unpack_fdB_def tdb_unpack_B_def Let_def
      split: option.splits prod.splits if_splits)

lemma unpack_values_loop_kept:
  "unpack_values_loop buf n len vals = Some (l, vals') \<Longrightarrow>
   \<forall>v\<in>set (reg_values vals'). v \<in> set (reg_values vals) \<or> unpack_keep v"
proof (induction n arbitrary: len vals)
  case 0
  then show ?case by simp
next
  case (Suc n)
  obtain r name type sz dp where u: "tdb_unpack_fdB (drop (nat len) buf) = (r, name, type, sz, dp)"
    by (cases "tdb_unpack_fdB (drop (nat len) buf)") auto
  define vals1 where "vals1 = (case dp of
                       None \<Rightarrow> vals
                     | Some dat \<Rightarrow>
                         if name \<noteq> [] \<and> sz \<noteq> 0
                         then regval_ctr_addvalue vals name type dat sz else vals)"
  have rec: "unpack_values_loop buf n (len + r) vals1 = Some (l, vals')"
    using Suc.prems by (simp add: u vals1_def Let_def split: if_splits)
  have one: "\<forall>v\<in>set (reg_values vals1). v \<in> set (reg_values vals) \<or> unpack_keep v"
  proof (cases dp)
    case None
    then show ?thesis by (simp add: vals1_def)
  next
    case (Some dat)
    have p: "length dat = sz \<and> sz \<noteq> 0" using u Some by (intro tdb_unpack_fdB_payload) simp
    show ?thesis
    proof (cases "name \<noteq> []")
      case True
      have "reg_values vals1 = regval_ctr_delvalue_in (reg_values vals) name @
              [\<lparr>valuename = name, val_type = type, data_p = dat\<rparr>]"
        using p True Some by (simp add: vals1_def regval_ctr_addvalue_def)
      moreover have "unpack_keep \<lparr>valuename = name, val_type = type, data_p = dat\<rparr>"
        using p True by (auto simp: unpack_keep_def)
      ultimately show ?thesis using delvalue_in_subset[of "reg_values vals" name] by auto
    next
      case False
      then show ?thesis using Some by (simp add: vals1_def)
    qed
  qed
  from Suc.IH[OF rec] one show ?case by blast
qed

lemma regdb_unpack_values_kept:
  "regdb_unpack_values vals buf = Some (l, vals') \<Longrightarrow>
   \<forall>v\<in>set (reg_values vals'). v \<in> set (reg_values vals) \<or> unpack_keep v"
  by (auto simp: regdb_unpack_values_def split: option.splits dest: unpack_values_loop_kept)

lemma regdb_fetch_values_kept:
  assumes "regdb_fetch_values tdb key vals = Some (n, vals')"
  shows "\<forall>v\<in>set (reg_values vals'). v \<in> set (reg_values vals) \<or> unpack_keep v"
proof -
  have "vals' = vals \<or> vals' = vals\<lparr>values_seqnum := regdb_get_seqnum tdb\<rparr> \<or>
        (\<exists>buf l. regdb_unpack_values (vals\<lparr>values_seqnum := regdb_get_seqnum tdb\<rparr>) buf = Some (l, vals'))"
    using assms by (auto simp: regdb_fetch_values_def Let_def split: if_splits option.splits)
  then show ?thesis using regdb_unpack_values_kept by fastforce
qed

lemma store_fetch_values:
  assumes tr: "trans_ok tdb"
    and lock: "\<not> tdb_lock_timeout tdb (normalize_reg_path (REG_VALUE_PREFIX @ ''/'' @ key))"
    and ok: "\<forall>v\<in>set (reg_values vals). value_ok v"
    and dist: "distinct (map (strupper_m \<circ> valuename) (reg_values vals))"
    and len: "length (pack_values (reg_values vals)) < 2 ^ 31"
  shows "\<exists>tdb'. regdb_store_values tdb key vals = Some (True, tdb') \<and>
           regdb_fetch_values tdb' key regval_ctr_zero =
             Some (int (length (filter unpack_keep (reg_values vals))),
                   \<lparr>reg_values = filter unpack_keep (reg_values vals), values_seqnum = tdb_seqnum tdb'\<rparr>)"
proof -
  let ?k = "normalize_reg_path (REG_VALUE_PREFIX @ ''/'' @ key)"
  let ?vs = "reg_values vals"
  obtain tdb' where st: "regdb_store_values tdb key vals = Some (True, tdb')"
    and r: "tdb_records tdb' ?k = Some (pack_values ?vs)"
    and l: "tdb_lock_timeout tdb' = tdb_lock_timeout tdb"
    using regdb_store_values_result[OF tr, of key vals] by blast
  have lock': "\<not> tdb_lock_timeout tdb' ?k" using lock l by simp
  have r': "tdb_records tdb' ?k = Some (SIVAL (length ?vs + 0) @ concat (map pack_value ?vs))"
    using r by (simp add: pack_values_def)
  have n: "length ?vs + 0 < 2 ^ 32"
    using len length_pack_values_ge[of ?vs] by (simp add: pack_values_def)
  have "regdb_fetch_values tdb' key regval_ctr_zero =
             Some (int (length (filter unpack_keep ?vs)),
                   \<lparr>reg_values = filter unpack_keep ?vs, values_seqnum = tdb_seqnum tdb'\<rparr>)"
    using lock' r' _ ok n dist by (rule fetch_values_packed_gen) simp
  then show ?thesis using st by blast
qed

lemma unpack_keep_eq: "unpack_keep = (\<lambda>v. valuename v \<noteq> [] \<and> data_p v \<noteq> [])"
  by (intro ext) (simp add: unpack_keep_def)

text \<open>
  Claim C9. Whatever the buffer, every value that \<^verbatim>\<open>regdb_unpack_values\<close> adds to the
  container has a non-empty name and a non-empty payload: an entry with an empty name, a
  zero length or no payload is skipped. Consequently, when a list of values is stored with
  \<^verbatim>\<open>regdb_store_values\<close> and read back with \<^verbatim>\<open>regdb_fetch_values\<close>, the result is the
  stored list without the values whose name or payload is empty, in the stored order; a
  value stored with a zero-length payload is not among them.
\<close>

theorem fetch_values_skips_empty:
  assumes "trans_ok tdb"
    and "\<not> tdb_lock_timeout tdb (normalize_reg_path (REG_VALUE_PREFIX @ ''/'' @ key))"
    and "\<forall>v\<in>set (reg_values vals). value_ok v"
    and "distinct (map (\<lambda>v. strupper_m (valuename v)) (reg_values vals))"
    and "length (pack_values (reg_values vals)) < 2 ^ 31"
  shows "(\<forall>vals0 buf l vals1. regdb_unpack_values vals0 buf = Some (l, vals1) \<longrightarrow>
            (\<forall>v\<in>set (reg_values vals1).
               v \<in> set (reg_values vals0) \<or> (valuename v \<noteq> [] \<and> data_p v \<noteq> []))) \<and>
         (\<exists>tdb' n vals'.
            regdb_store_values tdb key vals = Some (True, tdb') \<and>
            regdb_fetch_values tdb' key regval_ctr_zero = Some (n, vals') \<and>
            reg_values vals' =
              filter (\<lambda>v. valuename v \<noteq> [] \<and> data_p v \<noteq> []) (reg_values vals) \<and>
            n = int (length (reg_values vals')) \<and>
            (\<forall>v\<in>set (reg_values vals). data_p v = [] \<longrightarrow> v \<notin> set (reg_values vals')))"
proof -
  have d: "distinct (map (strupper_m \<circ> valuename) (reg_values vals))"
    using assms(4) by (simp add: comp_def)
  have a: "\<forall>vals0 buf l vals1. regdb_unpack_values vals0 buf = Some (l, vals1) \<longrightarrow>
            (\<forall>v\<in>set (reg_values vals1).
               v \<in> set (reg_values vals0) \<or> (valuename v \<noteq> [] \<and> data_p v \<noteq> []))"
    using regdb_unpack_values_kept unfolding unpack_keep_eq by blast
  from store_fetch_values[OF assms(1,2,3) d assms(5)]
  obtain tdb' where st: "regdb_store_values tdb key vals = Some (True, tdb')"
    and f: "regdb_fetch_values tdb' key regval_ctr_zero =
             Some (int (length (filter unpack_keep (reg_values vals))),
                   \<lparr>reg_values = filter unpack_keep (reg_values vals), values_seqnum = tdb_seqnum tdb'\<rparr>)"
    by blast
  have b: "\<exists>tdb' n vals'.
            regdb_store_values tdb key vals = Some (True, tdb') \<and>
            regdb_fetch_values tdb' key regval_ctr_zero = Some (n, vals') \<and>
            reg_values vals' =
              filter (\<lambda>v. valuename v \<noteq> [] \<and> data_p v \<noteq> []) (reg_values vals) \<and>
            n = int (length (reg_values vals')) \<and>
            (\<forall>v\<in>set (reg_values vals). data_p v = [] \<longrightarrow> v \<notin> set (reg_values vals'))"
    using st f unfolding unpack_keep_eq
    by (intro exI[of _ tdb'] exI[of _ "int (length (filter (\<lambda>v. valuename v \<noteq> [] \<and> data_p v \<noteq> []) (reg_values vals)))"]
        exI[of _ "\<lparr>reg_values = filter (\<lambda>v. valuename v \<noteq> [] \<and> data_p v \<noteq> []) (reg_values vals), values_seqnum = tdb_seqnum tdb'\<rparr>"])
      simp
  from a b show ?thesis by (rule conjI)
qed

lemma example_values_hyps:
  "trans_ok example_tdb"
  "\<not> tdb_lock_timeout example_tdb (normalize_reg_path (REG_VALUE_PREFIX @ ''/'' @ example_key))"
  "\<forall>v\<in>set (reg_values example_values). value_ok v"
  "distinct (map (\<lambda>v. strupper_m (valuename v)) (reg_values example_values))"
  "length (pack_values (reg_values example_values)) < 2 ^ 31"
proof -
  show "trans_ok example_tdb" by (simp add: trans_ok_def example_tdb_def)
  show "\<not> tdb_lock_timeout example_tdb (normalize_reg_path (REG_VALUE_PREFIX @ ''/'' @ example_key))"
    by (simp add: example_tdb_def)
  show "\<forall>v\<in>set (reg_values example_values). value_ok v"
    by (simp add: example_values_def value_ok_def REG_DWORD_def REG_SZ_def length_SIVAL)
  show "distinct (map (\<lambda>v. strupper_m (valuename v)) (reg_values example_values))"
    by (simp add: example_values_def strupper_m_def toupper_ascii_def)
  show "length (pack_values (reg_values example_values)) < 2 ^ 31"
    by (simp add: example_values_def pack_values_def pack_value_def length_SIVAL)
qed

theorem fetch_values_skips_empty_witness:
  "\<exists>tdb' vals'.
     regdb_store_values example_tdb example_key example_values = Some (True, tdb') \<and>
     regdb_fetch_values tdb' example_key regval_ctr_zero = Some (1, vals') \<and>
     reg_values vals' = [\<lparr>valuename = ''Start'', val_type = REG_DWORD, data_p = SIVAL 2\<rparr>]"
proof -
  have fl: "filter (\<lambda>v. valuename v \<noteq> [] \<and> data_p v \<noteq> []) (reg_values example_values) =
            [\<lparr>valuename = ''Start'', val_type = REG_DWORD, data_p = SIVAL 2\<rparr>]"
    by (simp add: example_values_def SIVAL_def)
  from fetch_values_skips_empty[OF example_values_hyps, THEN conjunct2]
  obtain tdb' n vals' where
    "regdb_store_values example_tdb example_key example_values = Some (True, tdb')"
    "regdb_fetch_values tdb' example_key regval_ctr_zero = Some (n, vals')"
    "reg_values vals' = filter (\<lambda>v. valuename v \<noteq> [] \<and> data_p v \<noteq> []) (reg_values example_values)"
    "n = int (length (reg_values vals'))"
    by blast
  then show ?thesis unfolding fl by auto
qed


subsection \<open>Records that end before their count is reached\<close>

lemma tdb_unpack_fdB_fail:
  assumes "fst (tdb_unpack_fdB bs) = -1"
  shows "\<exists>name type sz. tdb_unpack_fdB bs = (-1, name, type, sz, None)"
  using assms
  by (auto simp: tdb_unpack_fdB_def split: option.splits prod.splits)

lemma tdb_unpack_fdB_short_payload:
  assumes "CHR 0x00 \<notin> set name" "length name < 256" "type < 2 ^ 32" "n < 2 ^ 32" "length rest < n"
  shows "tdb_unpack_fdB (name @ [CHR 0x00] @ SIVAL type @ SIVAL n @ rest) = (-1, name, type, n, None)"
proof -
  let ?r1 = "SIVAL type @ SIVAL n @ rest"
  have pv: "name @ [CHR 0x00] @ SIVAL type @ SIVAL n @ rest = name @ CHR 0x00 # ?r1" by simp
  have f: "tdb_unpack_f (name @ CHR 0x00 # ?r1) = Some (name, length name + 1)"
    using assms(1,2) by (rule tdb_unpack_f_packed)
  have d1: "drop (length name + 1) (name @ CHR 0x00 # ?r1) = SIVAL type @ (SIVAL n @ rest)" by simp
  have d: "tdb_unpack_d (SIVAL type @ (SIVAL n @ rest)) = Some (type, 4)"
    using assms(3) by (rule tdb_unpack_d_SIVAL)
  have d2: "drop (length name + 1 + 4) (name @ CHR 0x00 # ?r1) = SIVAL n @ rest"
    by (simp add: length_SIVAL)
  have i: "IVAL (SIVAL n @ rest) = n" using assms(4) by (rule IVAL_SIVAL)
  have b: "tdb_unpack_B (SIVAL n @ rest) = (Some n, None, None)"
    using assms(5) by (simp add: tdb_unpack_B_def i length_SIVAL Let_def)
  show ?thesis
    unfolding pv tdb_unpack_fdB_def f option.case prod.case d1 d d2 b by simp
qed

lemma fetch_keys_truncated:
  assumes lock: "\<not> tdb_lock_timeout tdb (normalize_reg_path key)"
    and rec: "tdb_records tdb (normalize_reg_path key) =
                Some (SIVAL (length ks + 1) @ concat (map (\<lambda>k. k @ [CHR 0x00]) ks) @ tail)"
    and ne: "ks \<noteq> []"
    and names: "\<forall>k\<in>set ks. CHR 0x00 \<notin> set k \<and> length k < 256"
    and tail: "tdb_unpack_f tail = None"
    and len: "4 + length (concat (map (\<lambda>k. k @ [CHR 0x00]) ks)) + length tail < 2 ^ 31"
  shows "regdb_fetch_keys tdb key ctr =
           Some (int (length ks) + 1, foldl regsubkey_ctr_addkey (ctr\<lparr>subkeys_seqnum := tdb_seqnum tdb\<rparr>) ks)"
proof -
  let ?body = "concat (map (\<lambda>k. k @ [CHR 0x00]) ks)"
  let ?c = "ctr\<lparr>subkeys_seqnum := tdb_seqnum tdb\<rparr>"
  define n where "n = length ks + 1"
  define buf where "buf = SIVAL n @ ?body @ tail"
  have l4: "length (SIVAL n) = 4" by (rule length_SIVAL)
  have n31: "n < 2 ^ 31"
    using len length_pack_subkeys_ge[of ks] by (simp add: n_def)
  then have n32: "n < 2 ^ 32" by simp
  have u: "tdb_unpack_d buf = Some (n, 4)"
    unfolding buf_def using n32 by (rule tdb_unpack_d_SIVAL)
  have l32: "length (SIVAL n @ ?body @ tail) < 2 ^ 32"
    using len by (simp add: length_SIVAL)
  have lp: "fetch_keys_loop (SIVAL n @ ?body @ tail) (length ks + 1) (length (SIVAL n)) None ?c =
            fetch_keys_loop (SIVAL n @ ?body @ tail) 1 (length (SIVAL n) + length ?body)
              (if ks = [] then None else Some (last ks)) (foldl regsubkey_ctr_addkey ?c ks)"
    using names l32 by (rule fetch_keys_loop_packed)
  have "last ks \<in> set ks" using ne by simp
  then have "strupper_m (last ks) \<in> strupper_m ` set (subkeys (foldl regsubkey_ctr_addkey ?c ks))"
    by (rule foldl_addkey_contains)
  then have ex: "regsubkey_ctr_addkey (foldl regsubkey_ctr_addkey ?c ks) (last ks) =
                 foldl regsubkey_ctr_addkey ?c ks"
    by (rule addkey_existing)
  define off where "off = length (SIVAL n) + length ?body"
  have dr: "drop off buf = tail" by (simp add: off_def buf_def)
  have ol: "\<not> off > length buf" by (simp add: off_def buf_def)
  have fin0: "fetch_keys_loop buf (Suc 0) off (Some (last ks)) (foldl regsubkey_ctr_addkey ?c ks) =
             Some (foldl regsubkey_ctr_addkey ?c ks)"
    using ol by (simp add: dr tail ex)
  have fin: "fetch_keys_loop (SIVAL n @ ?body @ tail) 1 (length (SIVAL n) + length ?body)
              (if ks = [] then None else Some (last ks)) (foldl regsubkey_ctr_addkey ?c ks) =
             Some (foldl regsubkey_ctr_addkey ?c ks)"
    using fin0 ne unfolding off_def buf_def by (simp only: One_nat_def if_False)
  have lp': "fetch_keys_loop buf n 4 None ?c = Some (foldl regsubkey_ctr_addkey ?c ks)"
    using trans[OF lp fin] unfolding buf_def[symmetric] l4 n_def[symmetric] .
  have rec': "tdb_records tdb (normalize_reg_path key) = Some buf"
    using rec unfolding buf_def n_def .
  have r: "int_of_uint32 n = int (length ks) + 1"
    using int_of_uint32_small[OF n31] by (simp add: n_def)
  show ?thesis
    using lock rec'
    by (simp add: regdb_fetch_keys_def normalize_reg_path_def[symmetric]
        tdb_read_lock_bystring_with_timeout_def tdb_fetch_bystring_def u lp'
        regdb_get_seqnum_def tdb_get_seqnum_def r)
qed

lemma unpack_values_truncated:
  assumes ok: "\<forall>v\<in>set vs. value_ok v"
    and len: "length vs + 1 < 2 ^ 32"
    and tail: "fst (tdb_unpack_fdB tail) = -1"
  shows "regdb_unpack_values c (SIVAL (length vs + 1) @ concat (map pack_value vs) @ tail) =
           Some (int (4 + length (concat (map pack_value vs))) - 1, foldl unpack_step c vs)"
proof -
  let ?body = "concat (map pack_value vs)"
  define n where "n = length vs + 1"
  define buf where "buf = SIVAL n @ ?body @ tail"
  define e where "e = int (4 + length ?body)"
  have l4: "int (length (SIVAL n)) = 4" by (simp add: length_SIVAL)
  have lb: "int (length (SIVAL n) + length ?body) = e" by (simp add: e_def length_SIVAL)
  have u: "tdb_unpack_d buf = Some (n, 4)"
    unfolding buf_def n_def using len by (rule tdb_unpack_d_SIVAL)
  have lp: "unpack_values_loop (SIVAL n @ ?body @ tail) (length vs + 1) (int (length (SIVAL n))) c =
            unpack_values_loop (SIVAL n @ ?body @ tail) 1 (int (length (SIVAL n) + length ?body)) (foldl unpack_step c vs)"
    using ok by (rule unpack_values_loop_packed)
  from tdb_unpack_fdB_fail[OF tail] obtain name type sz where
    t: "tdb_unpack_fdB tail = (-1, name, type, sz, None)" by blast
  have e0: "0 \<le> e" "e \<le> int (length buf)" "drop (nat e) buf = tail"
    by (simp_all add: e_def buf_def length_SIVAL)
  have fin: "unpack_values_loop buf 1 e (foldl unpack_step c vs) =
             Some (e - 1, foldl unpack_step c vs)"
    using e0 by (simp add: t)
  have lp': "unpack_values_loop buf n 4 c = Some (e - 1, foldl unpack_step c vs)"
    using trans[OF lp[unfolded l4 lb buf_def[symmetric]] fin] unfolding n_def[symmetric] .
  have "regdb_unpack_values c buf = Some (e - 1, foldl unpack_step c vs)"
    by (simp add: regdb_unpack_values_def u lp')
  then show ?thesis unfolding buf_def n_def e_def .
qed

lemma foldl_unpack_step_zero:
  assumes "distinct (map (\<lambda>v. strupper_m (valuename v)) vs)"
  shows "foldl unpack_step regval_ctr_zero vs =
           \<lparr>reg_values = filter (\<lambda>v. valuename v \<noteq> [] \<and> data_p v \<noteq> []) vs, values_seqnum = 0\<rparr>"
proof -
  have "distinct (map (strupper_m \<circ> valuename) (reg_values regval_ctr_zero @ vs))"
    using assms by (simp add: regval_ctr_zero_def comp_def)
  from foldl_unpack_step_distinct[OF this]
  show ?thesis
    unfolding unpack_keep_eq
    by (intro regval_ctr.equality) (simp_all add: regval_ctr_zero_def)
qed

text \<open>
  Claim C5, as amended. Decoding has no error outcome. Take a record whose count field
  announces one entry more than the well-formed entries that follow it, the bytes after
  those entries not decoding as an entry: there are none, or they end before the
  terminator of the name or, for a value, before the type, the length or the payload of
  the length announced. For subkeys, \<^verbatim>\<open>regdb_fetch_keys\<close> (its read lock acquired, at least
  one name present, the names distinct) returns the count stored and hands back exactly
  the names present. For values, \<^verbatim>\<open>regdb_unpack_values\<close> (the names distinct) returns the
  position it reached and leaves in the container exactly the entries present that have
  a name and a payload. The last three conjuncts say that an entry whose payload length
  points past the end of the buffer, and the empty rest, are such bytes.
\<close>

theorem decode_truncated_no_error:
  "(\<not> tdb_lock_timeout tdb (normalize_reg_path key) \<and>
    tdb_records tdb (normalize_reg_path key) =
      Some (SIVAL (length ks + 1) @ concat (map (\<lambda>k. k @ [CHR 0x00]) ks) @ ktail) \<and>
    ks \<noteq> [] \<and> (\<forall>k\<in>set ks. CHR 0x00 \<notin> set k \<and> length k < 256) \<and>
    distinct (map strupper_m ks) \<and> tdb_unpack_f ktail = None \<and>
    4 + length (concat (map (\<lambda>k. k @ [CHR 0x00]) ks)) + length ktail < 2 ^ 31 \<longrightarrow>
    regdb_fetch_keys tdb key regsubkey_ctr_zero =
      Some (int (length ks) + 1, \<lparr>subkeys = ks, subkeys_seqnum = tdb_seqnum tdb\<rparr>)) \<and>
   ((\<forall>v\<in>set vs. value_ok v) \<and> distinct (map (\<lambda>v. strupper_m (valuename v)) vs) \<and>
    length vs + 1 < 2 ^ 32 \<and> fst (tdb_unpack_fdB vtail) = -1 \<longrightarrow>
    regdb_unpack_values regval_ctr_zero (SIVAL (length vs + 1) @ concat (map pack_value vs) @ vtail) =
      Some (int (4 + length (concat (map pack_value vs))) - 1,
            \<lparr>reg_values = filter (\<lambda>v. valuename v \<noteq> [] \<and> data_p v \<noteq> []) vs, values_seqnum = 0\<rparr>)) \<and>
   (CHR 0x00 \<notin> set name \<and> length name < 256 \<and> ty < 2 ^ 32 \<and> n < 2 ^ 32 \<and> length rest < n \<longrightarrow>
    tdb_unpack_fdB (name @ [CHR 0x00] @ SIVAL ty @ SIVAL n @ rest) = (-1, name, ty, n, None)) \<and>
   tdb_unpack_f [] = None \<and> fst (tdb_unpack_fdB []) = -1"
proof (intro conjI impI)
  assume a: "\<not> tdb_lock_timeout tdb (normalize_reg_path key) \<and>
    tdb_records tdb (normalize_reg_path key) =
      Some (SIVAL (length ks + 1) @ concat (map (\<lambda>k. k @ [CHR 0x00]) ks) @ ktail) \<and>
    ks \<noteq> [] \<and> (\<forall>k\<in>set ks. CHR 0x00 \<notin> set k \<and> length k < 256) \<and>
    distinct (map strupper_m ks) \<and> tdb_unpack_f ktail = None \<and>
    4 + length (concat (map (\<lambda>k. k @ [CHR 0x00]) ks)) + length ktail < 2 ^ 31"
  let ?c = "regsubkey_ctr_zero\<lparr>subkeys_seqnum := tdb_seqnum tdb\<rparr>"
  have "distinct (map strupper_m (subkeys ?c @ ks))"
    using a by (simp add: regsubkey_ctr_zero_def)
  then have "subkeys (foldl regsubkey_ctr_addkey ?c ks) = subkeys ?c @ ks"
    by (rule foldl_addkey_distinct)
  then have c: "foldl regsubkey_ctr_addkey ?c ks = \<lparr>subkeys = ks, subkeys_seqnum = tdb_seqnum tdb\<rparr>"
    by (intro regsubkey_ctr.equality) (simp_all add: regsubkey_ctr_zero_def)
  have "regdb_fetch_keys tdb key regsubkey_ctr_zero =
           Some (int (length ks) + 1, foldl regsubkey_ctr_addkey ?c ks)"
    using a by (intro fetch_keys_truncated) blast+
  then show "regdb_fetch_keys tdb key regsubkey_ctr_zero =
      Some (int (length ks) + 1, \<lparr>subkeys = ks, subkeys_seqnum = tdb_seqnum tdb\<rparr>)"
    by (simp only: c)
next
  assume a: "(\<forall>v\<in>set vs. value_ok v) \<and> distinct (map (\<lambda>v. strupper_m (valuename v)) vs) \<and>
    length vs + 1 < 2 ^ 32 \<and> fst (tdb_unpack_fdB vtail) = -1"
  have "regdb_unpack_values regval_ctr_zero (SIVAL (length vs + 1) @ concat (map pack_value vs) @ vtail) =
           Some (int (4 + length (concat (map pack_value vs))) - 1, foldl unpack_step regval_ctr_zero vs)"
    using a by (intro unpack_values_truncated) blast+
  moreover have "foldl unpack_step regval_ctr_zero vs =
           \<lparr>reg_values = filter (\<lambda>v. valuename v \<noteq> [] \<and> data_p v \<noteq> []) vs, values_seqnum = 0\<rparr>"
    using a by (intro foldl_unpack_step_zero) blast
  ultimately show "regdb_unpack_values regval_ctr_zero (SIVAL (length vs + 1) @ concat (map pack_value vs) @ vtail) =
      Some (int (4 + length (concat (map pack_value vs))) - 1,
            \<lparr>reg_values = filter (\<lambda>v. valuename v \<noteq> [] \<and> data_p v \<noteq> []) vs, values_seqnum = 0\<rparr>)"
    by (simp only:)
next
  assume "CHR 0x00 \<notin> set name \<and> length name < 256 \<and> ty < 2 ^ 32 \<and> n < 2 ^ 32 \<and> length rest < n"
  then show "tdb_unpack_fdB (name @ [CHR 0x00] @ SIVAL ty @ SIVAL n @ rest) = (-1, name, ty, n, None)"
    by (intro tdb_unpack_fdB_short_payload) blast+
next
  show "tdb_unpack_f [] = None" by simp
  show "fst (tdb_unpack_fdB []) = -1" by (simp add: tdb_unpack_fdB_nil)
qed

lemma truncated_paths:
  "normalize_reg_path ''HKLM'' = ''HKLM''"
  "normalize_reg_path (REG_VALUE_PREFIX @ ''/'' @ ''HKLM'') = ''REG_VALUES/HKLM''"
  by (simp_all add: eval_path)

theorem decode_truncated_no_error_witness:
  "regdb_fetch_keys truncated_tdb ''HKLM'' regsubkey_ctr_zero =
     Some (2, \<lparr>subkeys = [''Samba''], subkeys_seqnum = 5\<rparr>) \<and>
   regdb_unpack_values regval_ctr_zero
     (SIVAL 2 @ pack_value \<lparr>valuename = ''Start'', val_type = REG_DWORD, data_p = SIVAL 2\<rparr> @
      ''Flags'' @ [CHR 0x00] @ SIVAL REG_DWORD @ SIVAL 8 @ SIVAL 1) =
     Some (21, \<lparr>reg_values = [\<lparr>valuename = ''Start'', val_type = REG_DWORD, data_p = SIVAL 2\<rparr>],
                values_seqnum = 0\<rparr>)"
proof -
  let ?v = "\<lparr>valuename = ''Start'', val_type = REG_DWORD, data_p = SIVAL 2\<rparr>"
  let ?tail = "''Flags'' @ [CHR 0x00] @ SIVAL REG_DWORD @ SIVAL 8 @ SIVAL 1"
  note T = decode_truncated_no_error[where tdb = truncated_tdb and key = "''HKLM''" and ks = "[''Samba'']"
      and ktail = "[]" and vs = "[?v]" and vtail = ?tail and name = "''Flags''" and ty = REG_DWORD
      and n = 8 and rest = "SIVAL 1"]
  have k: "\<not> tdb_lock_timeout truncated_tdb (normalize_reg_path ''HKLM'') \<and>
    tdb_records truncated_tdb (normalize_reg_path ''HKLM'') =
      Some (SIVAL (length [''Samba''] + 1) @ concat (map (\<lambda>k. k @ [CHR 0x00]) [''Samba'']) @ []) \<and>
    [''Samba''] \<noteq> [] \<and> (\<forall>k\<in>set [''Samba'']. CHR 0x00 \<notin> set k \<and> length k < 256) \<and>
    distinct (map strupper_m [''Samba'']) \<and> tdb_unpack_f [] = None \<and>
    4 + length (concat (map (\<lambda>k. k @ [CHR 0x00]) [''Samba''])) + length ([] :: string) < 2 ^ 31"
  proof -
    have r: "tdb_records truncated_tdb (normalize_reg_path ''HKLM'') =
      Some (SIVAL (length [''Samba''] + 1) @ concat (map (\<lambda>k. k @ [CHR 0x00]) [''Samba'']) @ [])"
      unfolding truncated_paths by (simp add: truncated_tdb_def numeral_2_eq_2)
    have o: "\<not> tdb_lock_timeout truncated_tdb (normalize_reg_path ''HKLM'')"
      "[''Samba''] \<noteq> []" "\<forall>k\<in>set [''Samba'']. CHR 0x00 \<notin> set k \<and> length k < 256"
      "distinct (map strupper_m [''Samba''])" "tdb_unpack_f [] = None"
      "4 + length (concat (map (\<lambda>k. k @ [CHR 0x00]) [''Samba''])) + length ([] :: string) < 2 ^ 31"
      by (simp_all add: truncated_tdb_def)
    from r o show ?thesis by (intro conjI)
  qed
  have a: "regdb_fetch_keys truncated_tdb ''HKLM'' regsubkey_ctr_zero =
     Some (2, \<lparr>subkeys = [''Samba''], subkeys_seqnum = 5\<rparr>)"
    using T[THEN conjunct1, THEN mp, OF k] by (simp add: truncated_tdb_def)
  have p: "CHR 0x00 \<notin> set ''Flags'' \<and> length ''Flags'' < 256 \<and> REG_DWORD < 2 ^ 32 \<and>
           (8::nat) < 2 ^ 32 \<and> length (SIVAL 1) < 8"
    by (simp add: REG_DWORD_def length_SIVAL)
  have f: "fst (tdb_unpack_fdB ?tail) = -1"
    using T[THEN conjunct2, THEN conjunct2, THEN conjunct1, THEN mp, OF p] by simp
  have v: "(\<forall>v\<in>set [?v]. value_ok v) \<and> distinct (map (\<lambda>v. strupper_m (valuename v)) [?v]) \<and>
    length [?v] + 1 < 2 ^ 32 \<and> fst (tdb_unpack_fdB ?tail) = -1"
    using f by (simp add: value_ok_def REG_DWORD_def length_SIVAL)
  have e1: "SIVAL (length [?v] + 1) @ concat (map pack_value [?v]) @ ?tail = SIVAL 2 @ pack_value ?v @ ?tail"
    by (simp add: numeral_2_eq_2)
  have e2: "int (4 + length (concat (map pack_value [?v]))) - 1 = 21"
    by (simp add: pack_value_def length_SIVAL)
  have e3: "filter (\<lambda>v. valuename v \<noteq> [] \<and> data_p v \<noteq> []) [?v] = [?v]"
    by (simp add: SIVAL_def)
  have b: "regdb_unpack_values regval_ctr_zero (SIVAL 2 @ pack_value ?v @ ?tail) =
     Some (21, \<lparr>reg_values = [?v], values_seqnum = 0\<rparr>)"
    using T[THEN conjunct2, THEN conjunct1, THEN mp, OF v] unfolding e1 e2 e3 .
  from a b show ?thesis by (rule conjI)
qed

text \<open>
  The claim as stated fails: records shorter than their count are read without any error.
  The value decoder comes back with the one entry it found, and with none when the
  payload length of the only entry points past the end of the buffer; the subkey reader
  comes back with the count 2 and one name. When the count is two too large the subkey
  reader adds an empty name, and with no name before the end of the record it hands its
  uninitialised buffer to the container.
\<close>

theorem decode_truncated_counterexample:
  "regdb_unpack_values regval_ctr_zero
     (SIVAL 2 @ pack_value \<lparr>valuename = ''Start'', val_type = REG_DWORD, data_p = SIVAL 2\<rparr>) =
     Some (21, \<lparr>reg_values = [\<lparr>valuename = ''Start'', val_type = REG_DWORD, data_p = SIVAL 2\<rparr>],
                 values_seqnum = 0\<rparr>) \<and>
   regdb_unpack_values regval_ctr_zero (SIVAL 1 @ ''Start'' @ [CHR 0x00] @ SIVAL REG_DWORD @ SIVAL 8 @ SIVAL 2) =
     Some (3, regval_ctr_zero) \<and>
   regdb_fetch_keys truncated_tdb ''HKLM'' regsubkey_ctr_zero =
     Some (2, \<lparr>subkeys = [''Samba''], subkeys_seqnum = 5\<rparr>) \<and>
   regdb_fetch_keys
     \<lparr>tdb_records = (\<lambda>k. if k = ''HKLM'' then Some [CHR 0x03, CHR 0x00, CHR 0x00, CHR 0x00, CHR ''a'', CHR 0x00] else None),
        tdb_seqnum = 5, tdb_transaction = None, tdb_lock_timeout = (\<lambda>k. False)\<rparr>
     ''HKLM'' regsubkey_ctr_zero = Some (3, \<lparr>subkeys = [''a'', []], subkeys_seqnum = 5\<rparr>) \<and>
   regdb_fetch_keys
     \<lparr>tdb_records = (\<lambda>k. if k = ''HKLM'' then Some [CHR 0x01, CHR 0x00, CHR 0x00, CHR 0x00] else None),
        tdb_seqnum = 5, tdb_transaction = None, tdb_lock_timeout = (\<lambda>k. False)\<rparr>
     ''HKLM'' regsubkey_ctr_zero = None"
proof -
  let ?v = "\<lparr>valuename = ''Start'', val_type = REG_DWORD, data_p = SIVAL 2\<rparr>"
  have ok: "\<forall>v\<in>set [?v]. value_ok v"
    by (simp add: value_ok_def REG_DWORD_def length_SIVAL)
  have len2: "length [?v] + 1 < 2 ^ 32" by simp
  have t0: "fst (tdb_unpack_fdB []) = -1" by (simp add: tdb_unpack_fdB_nil)
  have e1: "SIVAL (length [?v] + 1) @ concat (map pack_value [?v]) @ [] = SIVAL 2 @ pack_value ?v"
    by (simp add: numeral_2_eq_2)
  have e2: "int (4 + length (concat (map pack_value [?v]))) - 1 = 21"
    by (simp add: length_SIVAL pack_value_def)
  have e3: "foldl unpack_step regval_ctr_zero [?v] = \<lparr>reg_values = [?v], values_seqnum = 0\<rparr>"
    by (simp add: unpack_step_def unpack_keep_def regval_ctr_addvalue_def regval_ctr_zero_def SIVAL_def)
  have a: "regdb_unpack_values regval_ctr_zero (SIVAL 2 @ pack_value ?v) =
           Some (21, \<lparr>reg_values = [?v], values_seqnum = 0\<rparr>)"
    using unpack_values_truncated[OF ok len2 t0, of regval_ctr_zero] unfolding e1 e2 e3 .
  have sp: "tdb_unpack_fdB (''Start'' @ [CHR 0x00] @ SIVAL REG_DWORD @ SIVAL 8 @ SIVAL 2) =
           (-1, ''Start'', REG_DWORD, 8, None)"
    by (rule tdb_unpack_fdB_short_payload) (simp_all add: REG_DWORD_def length_SIVAL)
  have t1: "fst (tdb_unpack_fdB (''Start'' @ [CHR 0x00] @ SIVAL REG_DWORD @ SIVAL 8 @ SIVAL 2)) = -1"
    by (simp only: sp fst_conv)
  have ok0: "\<forall>v\<in>set ([] :: registry_value list). value_ok v" by simp
  have len0: "length ([] :: registry_value list) + 1 < 2 ^ 32" by simp
  have b: "regdb_unpack_values regval_ctr_zero (SIVAL 1 @ ''Start'' @ [CHR 0x00] @ SIVAL REG_DWORD @ SIVAL 8 @ SIVAL 2) =
           Some (3, regval_ctr_zero)"
    using unpack_values_truncated[OF ok0 len0 t1, of regval_ctr_zero] by simp
  have h1: "\<not> tdb_lock_timeout truncated_tdb (normalize_reg_path ''HKLM'')"
    by (simp add: truncated_tdb_def)
  have h2: "tdb_records truncated_tdb (normalize_reg_path ''HKLM'') =
           Some (SIVAL (length [''Samba''] + 1) @ concat (map (\<lambda>k. k @ [CHR 0x00]) [''Samba'']) @ [])"
    unfolding truncated_paths by (simp add: truncated_tdb_def numeral_2_eq_2)
  have c: "regdb_fetch_keys truncated_tdb ''HKLM'' regsubkey_ctr_zero =
           Some (2, \<lparr>subkeys = [''Samba''], subkeys_seqnum = 5\<rparr>)"
    using fetch_keys_truncated[OF h1 h2, of regsubkey_ctr_zero]
    by (simp add: regsubkey_ctr_addkey_def regsubkey_ctr_key_exists_def regsubkey_ctr_zero_def truncated_tdb_def)
  have d: "regdb_fetch_keys
     \<lparr>tdb_records = (\<lambda>k. if k = ''HKLM'' then Some [CHR 0x03, CHR 0x00, CHR 0x00, CHR 0x00, CHR ''a'', CHR 0x00] else None),
        tdb_seqnum = 5, tdb_transaction = None, tdb_lock_timeout = (\<lambda>k. False)\<rparr>
     ''HKLM'' regsubkey_ctr_zero = Some (3, \<lparr>subkeys = [''a'', []], subkeys_seqnum = 5\<rparr>)"
    by (simp add: regdb_fetch_keys_def Let_def eval_path tdb_read_lock_bystring_with_timeout_def
      tdb_fetch_bystring_def tdb_unpack_d_def tdb_unpack_f_def sizeof_fstring_def int_of_uint32_def
      regdb_get_seqnum_def tdb_get_seqnum_def regsubkey_ctr_zero_def regsubkey_ctr_addkey_def
      regsubkey_ctr_key_exists_def strequal_def)
  have e: "regdb_fetch_keys
     \<lparr>tdb_records = (\<lambda>k. if k = ''HKLM'' then Some [CHR 0x01, CHR 0x00, CHR 0x00, CHR 0x00] else None),
        tdb_seqnum = 5, tdb_transaction = None, tdb_lock_timeout = (\<lambda>k. False)\<rparr>
     ''HKLM'' regsubkey_ctr_zero = None"
    by (simp add: regdb_fetch_keys_def Let_def eval_path tdb_read_lock_bystring_with_timeout_def
      tdb_fetch_bystring_def tdb_unpack_d_def tdb_unpack_f_def sizeof_fstring_def int_of_uint32_def
      regdb_get_seqnum_def tdb_get_seqnum_def regsubkey_ctr_zero_def)
  from a b c d e show ?thesis by simp
qed

subsection \<open>Seeding preserves existing values\<close>

lemma init_values_skip:
  "entry_present tdb b \<Longrightarrow>
   init_registry_values_loop tdb (b # bs) = init_registry_values_loop tdb bs"
  by (auto simp: entry_present_def split: option.splits)

lemma init_values_all_present:
  "\<forall>b\<in>set bs. entry_present tdb b \<Longrightarrow> init_registry_values_loop tdb bs = Some tdb"
proof (induction bs)
  case Nil
  then show ?case by simp
next
  case (Cons b bs)
  have "init_registry_values_loop tdb (b # bs) = init_registry_values_loop tdb bs"
    using Cons.prems by (intro init_values_skip) simp
  then show ?case using Cons by simp
qed

lemma filter_all_kept: "\<forall>v\<in>set vs. P v \<Longrightarrow> filter P vs = vs"
  by (induction vs) auto

text \<open>
  The seeding loop stores nothing for an entry whose name \<^verbatim>\<open>regdb_fetch_values\<close> finds
  at the entry's path: a table of such entries leaves the store as it is. So once a
  caller has stored a value list with \<^verbatim>\<open>regdb_store_values\<close>, every value having a name
  and a payload, running the loop over built-in entries for that path whose names are in
  the list changes nothing, and the values read back are the caller's.
\<close>

lemma seeder_keeps_values_with_payload:
  assumes "trans_ok tdb"
    and "\<not> tdb_lock_timeout tdb (normalize_reg_path (REG_VALUE_PREFIX @ ''/'' @ path))"
    and "\<forall>v\<in>set (reg_values vals). value_ok v \<and> valuename v \<noteq> [] \<and> data_p v \<noteq> []"
    and "distinct (map (\<lambda>v. strupper_m (valuename v)) (reg_values vals))"
    and "length (pack_values (reg_values vals)) < 2 ^ 31"
    and "\<forall>b\<in>set table. bv_path b = path \<and> regval_ctr_key_exists vals (bv_valuename b)"
  shows "(\<forall>t bs. (\<forall>b\<in>set bs. entry_present t b) \<longrightarrow> init_registry_values_loop t bs = Some t) \<and>
         (\<exists>tdb' n vals'.
            regdb_store_values tdb path vals = Some (True, tdb') \<and>
            init_registry_values_loop tdb' table = Some tdb' \<and>
            regdb_fetch_values tdb' path regval_ctr_zero = Some (n, vals') \<and>
            reg_values vals' = reg_values vals)"
proof -
  have a: "\<forall>t bs. (\<forall>b\<in>set bs. entry_present t b) \<longrightarrow> init_registry_values_loop t bs = Some t"
    using init_values_all_present by blast
  have ok: "\<forall>v\<in>set (reg_values vals). value_ok v" using assms(3) by blast
  have kept: "\<forall>v\<in>set (reg_values vals). unpack_keep v"
    using assms(3) by (simp add: unpack_keep_def)
  have d: "distinct (map (strupper_m \<circ> valuename) (reg_values vals))"
    using assms(4) by (simp add: comp_def)
  from store_fetch_values[OF assms(1,2) ok d assms(5)]
  obtain tdb' where st: "regdb_store_values tdb path vals = Some (True, tdb')"
    and f0: "regdb_fetch_values tdb' path regval_ctr_zero =
             Some (int (length (filter unpack_keep (reg_values vals))),
                   \<lparr>reg_values = filter unpack_keep (reg_values vals), values_seqnum = tdb_seqnum tdb'\<rparr>)"
    by blast
  have f: "regdb_fetch_values tdb' path regval_ctr_zero =
             Some (int (length (reg_values vals)),
                   \<lparr>reg_values = reg_values vals, values_seqnum = tdb_seqnum tdb'\<rparr>)"
    using f0 unfolding filter_all_kept[OF kept] .
  have "\<forall>b\<in>set table. entry_present tdb' b"
    using assms(6) f by (auto simp: entry_present_def regval_ctr_key_exists_def)
  then have l: "init_registry_values_loop tdb' table = Some tdb'"
    by (rule init_values_all_present)
  have b: "\<exists>tdb' n vals'.
            regdb_store_values tdb path vals = Some (True, tdb') \<and>
            init_registry_values_loop tdb' table = Some tdb' \<and>
            regdb_fetch_values tdb' path regval_ctr_zero = Some (n, vals') \<and>
            reg_values vals' = reg_values vals"
    using st l f by (intro exI[of _ tdb'] exI[of _ "int (length (reg_values vals))"]
        exI[of _ "\<lparr>reg_values = reg_values vals, values_seqnum = tdb_seqnum tdb'\<rparr>"]) simp
  from a b show ?thesis by (rule conjI)
qed

lemma init_values_add_sz:
  assumes "regdb_fetch_values tdb (bv_path b) regval_ctr_zero = Some (n, vals)"
    and "\<not> regval_ctr_key_exists vals (bv_valuename b)"
    and "bv_type b = REG_SZ"
    and "regdb_store_values tdb (bv_path b)
           (regval_ctr_addvalue vals (bv_valuename b) REG_SZ (fst (init_unistr2 (bv_string b)))
              (snd (init_unistr2 (bv_string b)) * 2)) = Some (ok, tdb1)"
  shows "init_registry_values_loop tdb (b # bs) = init_registry_values_loop tdb1 bs"
  using assms by (simp add: REG_SZ_def REG_DWORD_def case_prod_beta)

lemma init_values_add_dword:
  assumes "regdb_fetch_values tdb (bv_path b) regval_ctr_zero = Some (n, vals)"
    and "\<not> regval_ctr_key_exists vals (bv_valuename b)"
    and "bv_type b = REG_DWORD"
    and "regdb_store_values tdb (bv_path b)
           (regval_ctr_addvalue vals (bv_valuename b) REG_DWORD (SIVAL (bv_dw_value b)) 4) = Some (ok, tdb1)"
  shows "init_registry_values_loop tdb (b # bs) = init_registry_values_loop tdb1 bs"
  using assms by simp

lemma eventlog_values_ok:
  "value_ok eventlog_display" "value_ok (eventlog_error_control n)"
  "valuename eventlog_display \<noteq> []" "data_p eventlog_display \<noteq> []"
  "valuename (eventlog_error_control n) \<noteq> []" "data_p (eventlog_error_control n) \<noteq> []"
  "strupper_m (valuename eventlog_display) \<noteq> strupper_m (valuename (eventlog_error_control n))"
  "length (pack_value eventlog_display) < 100" "length (pack_value (eventlog_error_control n)) < 100"
  "\<not> strequal (valuename eventlog_display) ''ErrorControl''"
  by (simp_all add: strequal_def value_ok_def eventlog_display_def eventlog_error_control_def init_unistr2_def
      REG_SZ_def REG_DWORD_def length_SIVAL SIVAL_def pack_value_def strupper_m_def toupper_ascii_def)

lemma seed_empty_store:
  "\<exists>tdb2. init_registry_values_loop empty_tdb eventlog_table = Some tdb2 \<and>
          trans_ok tdb2 \<and>
          \<not> tdb_lock_timeout tdb2 (normalize_reg_path (REG_VALUE_PREFIX @ ''/'' @ eventlog_path)) \<and>
          regdb_fetch_values tdb2 eventlog_path regval_ctr_zero =
            Some (2, \<lparr>reg_values = [eventlog_display, eventlog_error_control 1],
                       values_seqnum = tdb_seqnum tdb2\<rparr>)"
proof -
  let ?K = "normalize_reg_path (REG_VALUE_PREFIX @ ''/'' @ eventlog_path)"
  define b1 where "b1 = \<lparr>bv_path = eventlog_path, bv_valuename = ''DisplayName'', bv_type = REG_SZ,
        bv_string = ''Event Log'', bv_dw_value = 0\<rparr>"
  define b2 where "b2 = \<lparr>bv_path = eventlog_path, bv_valuename = ''ErrorControl'', bv_type = REG_DWORD,
        bv_string = [], bv_dw_value = 1\<rparr>"
  have b1s: "bv_path b1 = eventlog_path" "bv_valuename b1 = ''DisplayName''" "bv_type b1 = REG_SZ"
    "bv_string b1 = ''Event Log''"
    by (simp_all add: b1_def)
  have b2s: "bv_path b2 = eventlog_path" "bv_valuename b2 = ''ErrorControl''" "bv_type b2 = REG_DWORD"
    "bv_dw_value b2 = 1"
    by (simp_all add: b2_def)
  have tab: "eventlog_table = [b1, b2]" by (simp add: eventlog_table_def b1_def b2_def)
  have tr0: "trans_ok empty_tdb" by (simp add: trans_ok_def empty_tdb_def)
  have l0: "\<not> tdb_lock_timeout empty_tdb ?K" by (simp add: empty_tdb_def)
  have r0: "tdb_records empty_tdb ?K = None" by (simp add: empty_tdb_def)
  define v0 where "v0 = regval_ctr_zero\<lparr>values_seqnum := tdb_seqnum empty_tdb\<rparr>"
  have f0: "regdb_fetch_values empty_tdb (bv_path b1) regval_ctr_zero = Some (0, v0)"
    unfolding b1s v0_def using l0 r0 by (rule fetch_values_absent)
  have ne0: "\<not> regval_ctr_key_exists v0 (bv_valuename b1)"
    by (simp add: v0_def regval_ctr_key_exists_def regval_ctr_zero_def)
  define vals1 where "vals1 = regval_ctr_addvalue v0 (bv_valuename b1) REG_SZ
       (fst (init_unistr2 (bv_string b1))) (snd (init_unistr2 (bv_string b1)) * 2)"
  have rv1: "reg_values vals1 = [eventlog_display]"
    by (simp add: vals1_def b1s v0_def regval_ctr_addvalue_def regval_ctr_zero_def eventlog_display_def
        init_unistr2_def)
  obtain tdb1 where s1: "regdb_store_values empty_tdb eventlog_path vals1 = Some (True, tdb1)"
    and r1: "tdb_records tdb1 ?K = Some (pack_values (reg_values vals1))"
    and l1: "tdb_lock_timeout tdb1 = tdb_lock_timeout empty_tdb"
    and t1: "tdb_transaction tdb1 = tdb_transaction empty_tdb"
    using regdb_store_values_result[OF tr0, of eventlog_path vals1] by blast
  have s1': "regdb_store_values empty_tdb (bv_path b1)
       (regval_ctr_addvalue v0 (bv_valuename b1) REG_SZ
       (fst (init_unistr2 (bv_string b1))) (snd (init_unistr2 (bv_string b1)) * 2)) = Some (True, tdb1)"
    using s1 unfolding vals1_def b1s(1) .
  have step1: "init_registry_values_loop empty_tdb (b1 # [b2]) = init_registry_values_loop tdb1 [b2]"
    using f0 ne0 b1s(3) s1' by (rule init_values_add_sz)
  have tr1: "trans_ok tdb1" using tr0 t1 by (simp add: trans_ok_def)
  have lk1: "\<not> tdb_lock_timeout tdb1 ?K" using l0 l1 by simp
  have r1': "tdb_records tdb1 ?K = Some (SIVAL (length [eventlog_display] + 0) @ concat (map pack_value [eventlog_display]))"
    using r1 unfolding rv1 by (simp add: pack_values_def)
  have f1: "regdb_fetch_values tdb1 eventlog_path regval_ctr_zero =
           Some (int (length (filter unpack_keep [eventlog_display])),
                 \<lparr>reg_values = filter unpack_keep [eventlog_display], values_seqnum = tdb_seqnum tdb1\<rparr>)"
    using lk1 r1' by (rule fetch_values_packed_gen) (simp_all add: eventlog_values_ok)
  have k1: "filter unpack_keep [eventlog_display] = [eventlog_display]"
    by (simp add: unpack_keep_def eventlog_values_ok)
  define v1 where "v1 = \<lparr>reg_values = [eventlog_display], values_seqnum = tdb_seqnum tdb1\<rparr>"
  have f1': "regdb_fetch_values tdb1 (bv_path b2) regval_ctr_zero = Some (1, v1)"
    using f1 unfolding k1 b2s by (simp add: v1_def)
  have ne1: "\<not> regval_ctr_key_exists v1 (bv_valuename b2)"
    by (simp add: v1_def b2s regval_ctr_key_exists_def eventlog_values_ok(10))
  define vals2 where "vals2 = regval_ctr_addvalue v1 (bv_valuename b2) REG_DWORD (SIVAL (bv_dw_value b2)) 4"
  have rv2: "reg_values vals2 = [eventlog_display, eventlog_error_control 1]"
    by (simp add: vals2_def b2s v1_def regval_ctr_addvalue_def eventlog_values_ok(10)
        eventlog_error_control_def length_SIVAL)
  obtain tdb2 where s2: "regdb_store_values tdb1 eventlog_path vals2 = Some (True, tdb2)"
    and r2: "tdb_records tdb2 ?K = Some (pack_values (reg_values vals2))"
    and l2: "tdb_lock_timeout tdb2 = tdb_lock_timeout tdb1"
    and t2: "tdb_transaction tdb2 = tdb_transaction tdb1"
    using regdb_store_values_result[OF tr1, of eventlog_path vals2] by blast
  have s2': "regdb_store_values tdb1 (bv_path b2)
       (regval_ctr_addvalue v1 (bv_valuename b2) REG_DWORD (SIVAL (bv_dw_value b2)) 4) = Some (True, tdb2)"
    using s2 unfolding vals2_def b2s(1) .
  have step2: "init_registry_values_loop tdb1 (b2 # []) = init_registry_values_loop tdb2 []"
    using f1' ne1 b2s(3) s2' by (rule init_values_add_dword)
  have tr2: "trans_ok tdb2" using tr1 t2 by (simp add: trans_ok_def)
  have lk2: "\<not> tdb_lock_timeout tdb2 ?K" using lk1 l2 by simp
  have r2': "tdb_records tdb2 ?K =
     Some (SIVAL (length [eventlog_display, eventlog_error_control 1] + 0) @
           concat (map pack_value [eventlog_display, eventlog_error_control 1]))"
    using r2 unfolding rv2 by (simp add: pack_values_def)
  have f2: "regdb_fetch_values tdb2 eventlog_path regval_ctr_zero =
           Some (int (length (filter unpack_keep [eventlog_display, eventlog_error_control 1])),
                 \<lparr>reg_values = filter unpack_keep [eventlog_display, eventlog_error_control 1],
                    values_seqnum = tdb_seqnum tdb2\<rparr>)"
    using lk2 r2' by (rule fetch_values_packed_gen) (simp_all add: eventlog_values_ok)
  have k2: "filter unpack_keep [eventlog_display, eventlog_error_control 1] =
            [eventlog_display, eventlog_error_control 1]"
    by (simp add: unpack_keep_def eventlog_values_ok)
  have "init_registry_values_loop empty_tdb eventlog_table = Some tdb2"
    unfolding tab step1 step2 by simp
  moreover have "regdb_fetch_values tdb2 eventlog_path regval_ctr_zero =
            Some (2, \<lparr>reg_values = [eventlog_display, eventlog_error_control 1],
                       values_seqnum = tdb_seqnum tdb2\<rparr>)"
    using f2 unfolding k2 by simp
  ultimately show ?thesis using tr2 lk2 by blast
qed

lemma seeder_keeps_error_control:
  "\<exists>tdb2 tdb3 n vals'.
     init_registry_values_loop empty_tdb eventlog_table = Some tdb2 \<and>
     regdb_fetch_values tdb2 eventlog_path regval_ctr_zero =
       Some (2, \<lparr>reg_values = [eventlog_display, eventlog_error_control 1],
                  values_seqnum = tdb_seqnum tdb2\<rparr>) \<and>
     regdb_store_values tdb2 eventlog_path
       \<lparr>reg_values = [eventlog_display, eventlog_error_control 2], values_seqnum = 0\<rparr> =
       Some (True, tdb3) \<and>
     init_registry_values_loop tdb3 eventlog_table = Some tdb3 \<and>
     regdb_fetch_values tdb3 eventlog_path regval_ctr_zero = Some (n, vals') \<and>
     reg_values vals' = [eventlog_display, eventlog_error_control 2]"
proof -
  let ?vals = "\<lparr>reg_values = [eventlog_display, eventlog_error_control 2], values_seqnum = 0\<rparr>"
  obtain tdb2 where i: "init_registry_values_loop empty_tdb eventlog_table = Some tdb2"
    and tr: "trans_ok tdb2"
    and lk: "\<not> tdb_lock_timeout tdb2 (normalize_reg_path (REG_VALUE_PREFIX @ ''/'' @ eventlog_path))"
    and f: "regdb_fetch_values tdb2 eventlog_path regval_ctr_zero =
            Some (2, \<lparr>reg_values = [eventlog_display, eventlog_error_control 1],
                       values_seqnum = tdb_seqnum tdb2\<rparr>)"
    using seed_empty_store by blast
  have h3: "\<forall>v\<in>set (reg_values ?vals). value_ok v \<and> valuename v \<noteq> [] \<and> data_p v \<noteq> []"
    by (simp add: eventlog_values_ok)
  have h4: "distinct (map (\<lambda>v. strupper_m (valuename v)) (reg_values ?vals))"
    by (simp add: eventlog_values_ok)
  have h5: "length (pack_values (reg_values ?vals)) < 2 ^ 31"
    using eventlog_values_ok(8) eventlog_values_ok(9)[of 2]
    by (simp add: pack_values_def length_SIVAL)
  have h6: "\<forall>b\<in>set eventlog_table. bv_path b = eventlog_path \<and> regval_ctr_key_exists ?vals (bv_valuename b)"
    by (simp add: eventlog_table_def regval_ctr_key_exists_def strequal_def
        eventlog_display_def eventlog_error_control_def)
  from seeder_keeps_values_with_payload[OF tr lk h3 h4 h5 h6, THEN conjunct2]
  obtain tdb3 n vals' where
    "regdb_store_values tdb2 eventlog_path ?vals = Some (True, tdb3)"
    "init_registry_values_loop tdb3 eventlog_table = Some tdb3"
    "regdb_fetch_values tdb3 eventlog_path regval_ctr_zero = Some (n, vals')"
    "reg_values vals' = reg_values ?vals"
    by blast
  then show ?thesis using i f by auto
qed

lemma eventlog_no_payload_facts:
  "value_ok eventlog_no_payload" "\<not> unpack_keep eventlog_no_payload"
  "strupper_m (valuename eventlog_display) \<noteq> strupper_m (valuename eventlog_no_payload)"
  "length (pack_value eventlog_no_payload) < 100"
  by (simp_all add: value_ok_def unpack_keep_def eventlog_no_payload_def eventlog_display_def
      REG_NONE_def pack_value_def length_SIVAL strupper_m_def toupper_ascii_def)

text \<open>
  Claim C7 at a caller's value without payload. The built-in entries for the event log
  are seeded into the empty store; the caller then stores the value list with
  \<^verbatim>\<open>ErrorControl\<close> overwritten by a value that has no payload, and
  \<^verbatim>\<open>regdb_store_values\<close> writes it into the record. Seeding again does not find the
  value, because \<^verbatim>\<open>regdb_unpack_values\<close> skips entries of size 0, and stores the
  default 1 in its place: the caller's value is gone from the record.
\<close>

theorem seeder_replaces_value_without_payload:
  "\<exists>tdb2 tdb3 tdb4.
     init_registry_values_loop empty_tdb eventlog_table = Some tdb2 \<and>
     regdb_store_values tdb2 eventlog_path
       \<lparr>reg_values = [eventlog_display, eventlog_no_payload], values_seqnum = 0\<rparr> = Some (True, tdb3) \<and>
     tdb_records tdb3 (normalize_reg_path (REG_VALUE_PREFIX @ ''/'' @ eventlog_path)) =
       Some (pack_values [eventlog_display, eventlog_no_payload]) \<and>
     init_registry_values_loop tdb3 eventlog_table = Some tdb4 \<and>
     tdb_records tdb4 (normalize_reg_path (REG_VALUE_PREFIX @ ''/'' @ eventlog_path)) =
       Some (pack_values [eventlog_display, eventlog_error_control 1])"
proof -
  let ?K = "normalize_reg_path (REG_VALUE_PREFIX @ ''/'' @ eventlog_path)"
  let ?vals = "\<lparr>reg_values = [eventlog_display, eventlog_no_payload], values_seqnum = 0\<rparr>"
  define b1 where "b1 = \<lparr>bv_path = eventlog_path, bv_valuename = ''DisplayName'', bv_type = REG_SZ,
        bv_string = ''Event Log'', bv_dw_value = 0\<rparr>"
  define b2 where "b2 = \<lparr>bv_path = eventlog_path, bv_valuename = ''ErrorControl'', bv_type = REG_DWORD,
        bv_string = [], bv_dw_value = 1\<rparr>"
  have b1s: "bv_path b1 = eventlog_path" "bv_valuename b1 = ''DisplayName''"
    by (simp_all add: b1_def)
  have b2s: "bv_path b2 = eventlog_path" "bv_valuename b2 = ''ErrorControl''" "bv_type b2 = REG_DWORD"
    "bv_dw_value b2 = 1"
    by (simp_all add: b2_def)
  have tab: "eventlog_table = [b1, b2]" by (simp add: eventlog_table_def b1_def b2_def)
  obtain tdb2 where i: "init_registry_values_loop empty_tdb eventlog_table = Some tdb2"
    and tr: "trans_ok tdb2" and lk: "\<not> tdb_lock_timeout tdb2 ?K"
    using seed_empty_store by blast
  obtain tdb3 where s3: "regdb_store_values tdb2 eventlog_path ?vals = Some (True, tdb3)"
    and r3: "tdb_records tdb3 ?K = Some (pack_values (reg_values ?vals))"
    and l3: "tdb_lock_timeout tdb3 = tdb_lock_timeout tdb2"
    and t3: "tdb_transaction tdb3 = tdb_transaction tdb2"
    using regdb_store_values_result[OF tr, of eventlog_path ?vals] by blast
  have r3': "tdb_records tdb3 ?K = Some (pack_values [eventlog_display, eventlog_no_payload])"
    using r3 by simp
  have tr3: "trans_ok tdb3" using tr t3 by (simp add: trans_ok_def)
  have lk3: "\<not> tdb_lock_timeout tdb3 ?K" using lk l3 by simp
  have r3'': "tdb_records tdb3 ?K =
     Some (SIVAL (length [eventlog_display, eventlog_no_payload] + 0) @
           concat (map pack_value [eventlog_display, eventlog_no_payload]))"
    using r3' by (simp add: pack_values_def)
  have f3: "regdb_fetch_values tdb3 eventlog_path regval_ctr_zero =
           Some (int (length (filter unpack_keep [eventlog_display, eventlog_no_payload])),
                 \<lparr>reg_values = filter unpack_keep [eventlog_display, eventlog_no_payload],
                    values_seqnum = tdb_seqnum tdb3\<rparr>)"
    using lk3 r3'' by (rule fetch_values_packed_gen)
       (simp_all add: eventlog_values_ok eventlog_no_payload_facts)
  have k3: "filter unpack_keep [eventlog_display, eventlog_no_payload] = [eventlog_display]"
    by (simp add: unpack_keep_def eventlog_values_ok eventlog_no_payload_facts(2)[unfolded unpack_keep_def])
  define v1 where "v1 = \<lparr>reg_values = [eventlog_display], values_seqnum = tdb_seqnum tdb3\<rparr>"
  have f3': "regdb_fetch_values tdb3 eventlog_path regval_ctr_zero = Some (1, v1)"
    using f3 unfolding k3 by (simp add: v1_def)
  have p1: "entry_present tdb3 b1"
    by (simp add: entry_present_def b1s f3' v1_def regval_ctr_key_exists_def strequal_def
        eventlog_display_def)
  have step1: "init_registry_values_loop tdb3 (b1 # [b2]) = init_registry_values_loop tdb3 [b2]"
    using p1 by (rule init_values_skip)
  have f3b: "regdb_fetch_values tdb3 (bv_path b2) regval_ctr_zero = Some (1, v1)"
    using f3' by (simp add: b2s)
  have ne1: "\<not> regval_ctr_key_exists v1 (bv_valuename b2)"
    by (simp add: v1_def b2s regval_ctr_key_exists_def eventlog_values_ok(10))
  define vals4 where "vals4 = regval_ctr_addvalue v1 (bv_valuename b2) REG_DWORD (SIVAL (bv_dw_value b2)) 4"
  have rv4: "reg_values vals4 = [eventlog_display, eventlog_error_control 1]"
    by (simp add: vals4_def b2s v1_def regval_ctr_addvalue_def eventlog_values_ok(10)
        eventlog_error_control_def length_SIVAL)
  obtain tdb4 where s4: "regdb_store_values tdb3 eventlog_path vals4 = Some (True, tdb4)"
    and r4: "tdb_records tdb4 ?K = Some (pack_values (reg_values vals4))"
    using regdb_store_values_result[OF tr3, of eventlog_path vals4] by blast
  have s4': "regdb_store_values tdb3 (bv_path b2)
       (regval_ctr_addvalue v1 (bv_valuename b2) REG_DWORD (SIVAL (bv_dw_value b2)) 4) = Some (True, tdb4)"
    using s4 unfolding vals4_def b2s(1) .
  have step2: "init_registry_values_loop tdb3 (b2 # []) = init_registry_values_loop tdb4 []"
    using f3b ne1 b2s(3) s4' by (rule init_values_add_dword)
  have l4: "init_registry_values_loop tdb3 eventlog_table = Some tdb4"
    unfolding tab step1 step2 by simp
  have r4': "tdb_records tdb4 ?K = Some (pack_values [eventlog_display, eventlog_error_control 1])"
    using r4 unfolding rv4 .
  show ?thesis
    using i s3 r3' l4 r4' by blast
qed

subsection \<open>Reference counting in \<^verbatim>\<open>regdb_close\<close>\<close>

text \<open>
  Claim C10. The handle reference count never becomes negative through \<^verbatim>\<open>regdb_close\<close>:
  a close at count zero returns 0 and leaves count and handle as they were; a close that
  returns from a non-negative count leaves a non-negative count; and whenever a close
  releases an open handle (the handle is set before the call and \<^verbatim>\<open>NULL\<close> after it), the
  count was one before the call and is zero after it.
\<close>

theorem regdb_close_refcount:
  "(tdb_refcount g = 0 \<longrightarrow> regdb_close g = Inr (0, g)) \<and>
   (0 \<le> tdb_refcount g \<longrightarrow>
      (\<exists>g'. regdb_close g = Inr (0, g') \<and> 0 \<le> tdb_refcount g' \<and>
            (1 < tdb_refcount g \<longrightarrow> tdb_reg g' = tdb_reg g))) \<and>
   (\<forall>r g'. regdb_close g = Inr (r, g') \<and> tdb_reg g \<noteq> None \<and> tdb_reg g' = None \<longrightarrow>
      tdb_refcount g = 1 \<and> tdb_refcount g' = 0)"
  by (auto simp: regdb_close_def Let_def)

theorem regdb_close_refcount_witness:
  "regdb_close \<lparr>tdb_reg = Some (), tdb_refcount = 0\<rparr> = Inr (0, \<lparr>tdb_reg = Some (), tdb_refcount = 0\<rparr>) \<and>
   (0::int) \<le> 1 \<and>
   (\<exists>g'. regdb_close \<lparr>tdb_reg = Some (), tdb_refcount = 1\<rparr> = Inr (0, g') \<and> 0 \<le> tdb_refcount g') \<and>
   regdb_close \<lparr>tdb_reg = Some (), tdb_refcount = 1\<rparr> = Inr (0, \<lparr>tdb_reg = None, tdb_refcount = 0\<rparr>) \<and>
   regdb_close \<lparr>tdb_reg = Some (), tdb_refcount = 2\<rparr> = Inr (0, \<lparr>tdb_reg = Some (), tdb_refcount = 1\<rparr>)"
proof -
  have a: "regdb_close \<lparr>tdb_reg = Some (), tdb_refcount = 0\<rparr> = Inr (0, \<lparr>tdb_reg = Some (), tdb_refcount = 0\<rparr>)"
    using regdb_close_refcount [of "\<lparr>tdb_reg = Some (), tdb_refcount = 0\<rparr>", THEN conjunct1] by simp
  have b: "\<exists>g'. regdb_close \<lparr>tdb_reg = Some (), tdb_refcount = 1\<rparr> = Inr (0, g') \<and> 0 \<le> tdb_refcount g'"
    using regdb_close_refcount [of "\<lparr>tdb_reg = Some (), tdb_refcount = 1\<rparr>", THEN conjunct2, THEN conjunct1]
    by simp
  have c: "regdb_close \<lparr>tdb_reg = Some (), tdb_refcount = 1\<rparr> = Inr (0, \<lparr>tdb_reg = None, tdb_refcount = 0\<rparr>)"
    by (simp add: regdb_close_def)
  have d: "regdb_close \<lparr>tdb_reg = Some (), tdb_refcount = 2\<rparr> = Inr (0, \<lparr>tdb_reg = Some (), tdb_refcount = 1\<rparr>)"
    by (simp add: regdb_close_def)
  show ?thesis using a b c d by simp
qed

end
